theory Spec2Isabelle
  imports Main "HOL-Library.Word"
begin

unbundle bit_operations_syntax

section \<open>Machine types and failures\<close>

text \<open>
  The contract \<^verbatim>\<open>SecretOfTheDeepNFT\<close> is compiled with Solidity 0.8: every
  \<^verbatim>\<open>uint256\<close> is a 256-bit word whose additions and subtractions are checked
  (an overflow or underflow aborts the call with a panic), and an address is a 160-bit word.
  A call that aborts leaves no trace in the storage, so every operation returns either
  the failure (\<open>Inl\<close>) or the storage after the call (\<open>Inr\<close>).
\<close>

type_synonym u256 = "256 word"
type_synonym address = "160 word"

text \<open>
  The failures of the contract, named as the specification names them; the comment gives
  the revert message or library error of the source.
\<close>

datatype error =
    Unauthorized            \<comment> \<open>\<^verbatim>\<open>OwnableUnauthorizedAccount\<close>, "Not authorized to burn", missing approval\<close>
  | NotFound                \<comment> \<open>"Token does not exist"\<close>
  | AlreadyExists           \<comment> \<open>"Token already exists"\<close>
  | InvalidArgument         \<comment> \<open>zero amounts, zero addresses, invalid sender or receiver\<close>
  | SupplyExceeded          \<comment> \<open>"Exceeds max supply"\<close>
  | InsufficientBalance     \<comment> \<open>"Insufficient ... balance", \<^verbatim>\<open>ERC1155InsufficientBalance\<close>\<close>
  | LengthMismatch          \<comment> \<open>"Arrays length mismatch"\<close>
  | TransferFailed          \<comment> \<open>"USDC transfer failed"\<close>
  | PanicArithmetic         \<comment> \<open>Panic(0x11): checked arithmetic overflowed or underflowed\<close>
  | PanicIndex              \<comment> \<open>Panic(0x32): array index out of bounds\<close>
  | ExternalRevert          \<comment> \<open>the external stable-coin ledger aborted the call\<close>

definition checked_add :: "u256 \<Rightarrow> u256 \<Rightarrow> error + u256" where
  "checked_add a b = (if unat a + unat b < 2 ^ 256 then Inr (a + b) else Inl PanicArithmetic)"

definition checked_sub :: "u256 \<Rightarrow> u256 \<Rightarrow> error + u256" where
  "checked_sub a b = (if b \<le> a then Inr (a - b) else Inl PanicArithmetic)"

section \<open>The URI template resolver\<close>

subsection \<open>\<^verbatim>\<open>_toHexString\<close>\<close>

definition HEX_SYMBOLS :: string where
  "HEX_SYMBOLS = ''0123456789abcdef''"

text \<open>The first loop of \<^verbatim>\<open>_toHexString\<close> counts the hexadecimal digits of the value.\<close>

function count_digits :: "u256 \<Rightarrow> nat \<Rightarrow> nat" where
  "count_digits temp digits =
     (if temp \<noteq> 0 then count_digits (drop_bit 4 temp) (digits + 1) else digits)"
  by pat_completeness auto
termination
proof (relation "measure (\<lambda>(temp, digits). unat temp)")
  show "wf (measure (\<lambda>(temp :: u256, digits :: nat). unat temp))"
    by simp
next
  fix temp :: u256 and digits :: nat
  assume nz: "temp \<noteq> 0"
  have "unat temp \<noteq> 0"
    using nz by (simp add: unat_eq_0)
  then have "unat temp div 16 < unat temp"
    by simp
  then have "unat (drop_bit 4 temp) < unat temp"
    by (simp add: drop_bit_eq_div unat_div)
  then show "((drop_bit 4 temp, digits + 1), (temp, digits)) \<in> measure (\<lambda>(temp, digits). unat temp)"
    by simp
qed

declare count_digits.simps [simp del]

text \<open>
  The second loop runs \<open>i\<close> from 64 down to 1 and stores the symbol of the lowest
  nibble at \<open>buffer[i - 1]\<close>, then shifts the value right by four bits.
\<close>

fun hex_loop :: "nat \<Rightarrow> u256 \<Rightarrow> string \<Rightarrow> string" where
  "hex_loop 0 v buffer = buffer"
| "hex_loop (Suc n) v buffer =
     hex_loop n (drop_bit 4 v) (buffer[n := HEX_SYMBOLS ! unat (v AND 0xf)])"

definition toHexString :: "u256 \<Rightarrow> string" where
  "toHexString v =
     (if v = 0 then ''0000000000000000000000000000000000000000000000000000000000000000''
      else let digits = count_digits v 0;
               buffer = replicate 64 (CHR 0x00)
           in hex_loop 64 v buffer)"

subsection \<open>The substitution loop of \<^verbatim>\<open>uri\<close>\<close>

text \<open>
  The inner loop copies the bytes of the hexadecimal string into \<open>result\<close> at
  \<open>resultIndex\<close>; a write past the end of \<open>result\<close> is an index panic.
\<close>

fun copy_bytes :: "string \<Rightarrow> string \<Rightarrow> nat \<Rightarrow> error + (string \<times> nat)" where
  "copy_bytes [] result resultIndex = Inr (result, resultIndex)"
| "copy_bytes (c # cs) result resultIndex =
     (if resultIndex < length result
      then copy_bytes cs (result[resultIndex := c]) (resultIndex + 1)
      else Inl PanicIndex)"

text \<open>
  The outer loop over the template bytes. The guard \<^verbatim>\<open>i < templateBytes.length - 3\<close>
  subtracts with a check, so it panics on a template shorter than three bytes. After a
  substitution the source adds 3 to \<open>i\<close> and the loop header adds 1.
\<close>

function uri_loop :: "string \<Rightarrow> u256 \<Rightarrow> nat \<Rightarrow> string \<Rightarrow> nat \<Rightarrow> error + (string \<times> nat)" where
  "uri_loop templateBytes tokenId i result resultIndex =
     (if i < length templateBytes then
        (if length templateBytes < 3 then Inl PanicArithmetic
         else if i < length templateBytes - 3 then
           (if templateBytes ! i = CHR 0x7b \<and>
               templateBytes ! (i + 1) = CHR 0x69 \<and>
               templateBytes ! (i + 2) = CHR 0x64 \<and>
               templateBytes ! (i + 3) = CHR 0x7d
            then (case copy_bytes (toHexString tokenId) result resultIndex of
                    Inl e \<Rightarrow> Inl e
                  | Inr (result', resultIndex') \<Rightarrow>
                      uri_loop templateBytes tokenId (i + 3 + 1) result' resultIndex')
            else if resultIndex < length result
                 then uri_loop templateBytes tokenId (i + 1)
                        (result[resultIndex := templateBytes ! i]) (resultIndex + 1)
                 else Inl PanicIndex)
         else if resultIndex < length result
              then uri_loop templateBytes tokenId (i + 1)
                     (result[resultIndex := templateBytes ! i]) (resultIndex + 1)
              else Inl PanicIndex)
      else Inr (result, resultIndex))"
  by pat_completeness auto
termination
  by (relation "measure (\<lambda>(templateBytes, tokenId, i, result, resultIndex). length templateBytes - i)")
     auto

declare uri_loop.simps [simp del]

text \<open>
  The resolver proper: the body of \<^verbatim>\<open>uri\<close> after its \<^verbatim>\<open>require\<close>. The
  buffer has \<open>length template + 64\<close> bytes; the result is its first \<open>resultIndex\<close>
  bytes.
\<close>

definition resolve :: "string \<Rightarrow> u256 \<Rightarrow> error + string" where
  "resolve template tokenId =
     (let result = replicate (length template + 64) (CHR 0x00)
      in case uri_loop template tokenId 0 result 0 of
           Inl e \<Rightarrow> Inl e
         | Inr (result', resultIndex) \<Rightarrow>
             if resultIndex \<le> length result' then Inr (take resultIndex result')
             else Inl PanicIndex)"

subsection \<open>What the loop computes\<close>

text \<open>
  \<open>expand h t\<close> replaces, from left to right, every \<^verbatim>\<open>{id}\<close> of \<open>t\<close> by \<open>h\<close>;
  \<open>at_id t\<close> says that \<open>t\<close> starts with \<^verbatim>\<open>{id}\<close>, and \<open>count_id t\<close> counts
  the positions of \<open>t\<close> at which \<^verbatim>\<open>{id}\<close> starts.
\<close>

fun expand :: "string \<Rightarrow> string \<Rightarrow> string" where
  "expand h (a # b # c # d # rest) =
     (if a = CHR 0x7b \<and> b = CHR 0x69 \<and> c = CHR 0x64 \<and> d = CHR 0x7d
      then h @ expand h rest
      else a # expand h (b # c # d # rest))"
| "expand h t = t"

definition at_id :: "string \<Rightarrow> bool" where
  "at_id t = (take 4 t = ''{id}'')"

fun count_id :: "string \<Rightarrow> nat" where
  "count_id [] = 0"
| "count_id (a # t) = (if at_id (a # t) then 1 else 0) + count_id t"

text \<open>The value a string of hexadecimal symbols denotes, most significant digit first.\<close>

definition hex_digit :: "char \<Rightarrow> nat" where
  "hex_digit c = (if c \<in> set ''0123456789'' then of_char c - 48 else of_char c - 87)"

definition hexval :: "string \<Rightarrow> nat" where
  "hexval s = foldl (\<lambda>acc c. 16 * acc + hex_digit c) 0 s"


section \<open>The token ledger and the treasury\<close>

subsection \<open>Storage\<close>

record TokenInfo =
  name :: string
  description :: string
  maxSupply :: u256
  currentSupply :: u256
  isActive :: bool

text \<open>
  Modelled from the spec: the stable-coin contract behind \<^verbatim>\<open>IUSDC\<close> is an external
  collaborator and not under src/. Section 6 of the specification describes it as the
  standard balance, transfer, transferFrom and allowance operations with 6-decimal
  amounts: a table of balances and a table of allowances (owner, then spender).
\<close>

record usdc_ledger =
  usdc_balance :: "address \<Rightarrow> u256"
  usdc_allowance :: "address \<Rightarrow> address \<Rightarrow> u256"

text \<open>
  The storage of the contract: the owner of \<^verbatim>\<open>Ownable\<close>, the \<^verbatim>\<open>tokenInfo\<close>
  mapping, the balances \<^verbatim>\<open>_balances[id][account]\<close> and operator approvals of the
  ERC-1155 base contract, the base URI, and the ledger of the stable coin at
  \<^verbatim>\<open>usdcAddress\<close>. The collection name, the symbol and the contract URI are only
  stored and returned; no operation below reads them and they are left out, as are the
  emitted events.
\<close>

record state =
  owner :: address
  tokenInfo :: "u256 \<Rightarrow> TokenInfo"
  balances :: "u256 \<Rightarrow> address \<Rightarrow> u256"
  operatorApprovals :: "address \<Rightarrow> address \<Rightarrow> bool"
  baseURI :: string
  usdc :: usdc_ledger

text \<open>
  What a call sees of its surroundings: the address of the contract itself
  (\<^verbatim>\<open>address(this)\<close>) and, for every receiver, whether its ERC-1155 receiver hook
  accepts a transfer (operator, from, to, ids, values). An account without code accepts
  everything.
\<close>

record env =
  contract_address :: address
  onReceived :: "address \<Rightarrow> address \<Rightarrow> address \<Rightarrow> u256 list \<Rightarrow> u256 list \<Rightarrow> bool"

subsection \<open>The external stable coin\<close>

text \<open>
  Modelled from the spec: \<^verbatim>\<open>transfer\<close> and \<^verbatim>\<open>transferFrom\<close> of the external
  stable coin (section 6: the standard operations). Each aborts (\<open>ExternalRevert\<close>) on
  a zero receiver, a balance or allowance that is too small, or a receiver balance that
  would overflow; otherwise it moves the amount and returns \<open>True\<close>.
\<close>

definition usdc_move :: "usdc_ledger \<Rightarrow> address \<Rightarrow> address \<Rightarrow> u256 \<Rightarrow> error + usdc_ledger" where
  "usdc_move l src dst amount =
     (if dst = 0 \<or> usdc_balance l src < amount then Inl ExternalRevert
      else let debited = (usdc_balance l)(src := usdc_balance l src - amount)
           in case checked_add (debited dst) amount of
                Inl err \<Rightarrow> Inl ExternalRevert
              | Inr credited \<Rightarrow> Inr (l\<lparr>usdc_balance := debited(dst := credited)\<rparr>))"

definition usdc_transfer ::
  "usdc_ledger \<Rightarrow> address \<Rightarrow> address \<Rightarrow> u256 \<Rightarrow> error + (bool \<times> usdc_ledger)" where
  "usdc_transfer l sender dst amount =
     (case usdc_move l sender dst amount of
        Inl err \<Rightarrow> Inl err
      | Inr l' \<Rightarrow> Inr (True, l'))"

definition usdc_transferFrom ::
  "usdc_ledger \<Rightarrow> address \<Rightarrow> address \<Rightarrow> address \<Rightarrow> u256 \<Rightarrow> error + (bool \<times> usdc_ledger)" where
  "usdc_transferFrom l spender src dst amount =
     (if usdc_allowance l src spender < amount then Inl ExternalRevert
      else case usdc_move l src dst amount of
             Inl err \<Rightarrow> Inl err
           | Inr l' \<Rightarrow>
               Inr (True, l'\<lparr>usdc_allowance :=
                 (usdc_allowance l')(src := (usdc_allowance l' src)
                    (spender := usdc_allowance l' src spender - amount))\<rparr>))"

subsection \<open>The ERC-1155 base contract\<close>

text \<open>
  Modelled from the spec: the ERC-1155 base contract the source inherits from is a
  library and not under src/. Section 3 of the specification (HolderBalance) gives its
  effect: a mint credits the receiver, a burn debits the holder and fails with
  \<open>InsufficientBalance\<close> when the balance would underflow, a transfer does both. The
  functions below follow the library's update routine: for every (id, value) pair in
  order, debit \<open>from\<close> unless it is the zero address, then credit \<open>to\<close> unless it is the
  zero address (a checked addition).
\<close>

definition update_one ::
  "address \<Rightarrow> address \<Rightarrow> u256 \<Rightarrow> u256 \<Rightarrow> (u256 \<Rightarrow> address \<Rightarrow> u256) \<Rightarrow>
   error + (u256 \<Rightarrow> address \<Rightarrow> u256)" where
  "update_one src dst tokenId v bal =
     (if src \<noteq> 0 \<and> bal tokenId src < v then Inl InsufficientBalance
      else let debited =
                 (if src \<noteq> 0 then bal(tokenId := (bal tokenId)(src := bal tokenId src - v))
                  else bal)
           in if dst \<noteq> 0
              then (case checked_add (debited tokenId dst) v of
                      Inl err \<Rightarrow> Inl err
                    | Inr credited \<Rightarrow>
                        Inr (debited(tokenId := (debited tokenId)(dst := credited))))
              else Inr debited)"

fun update_loop ::
  "address \<Rightarrow> address \<Rightarrow> (u256 \<times> u256) list \<Rightarrow> (u256 \<Rightarrow> address \<Rightarrow> u256) \<Rightarrow>
   error + (u256 \<Rightarrow> address \<Rightarrow> u256)" where
  "update_loop src dst [] bal = Inr bal"
| "update_loop src dst ((tokenId, v) # rest) bal =
     (case update_one src dst tokenId v bal of
        Inl err \<Rightarrow> Inl err
      | Inr bal' \<Rightarrow> update_loop src dst rest bal')"

definition update_base ::
  "address \<Rightarrow> address \<Rightarrow> u256 list \<Rightarrow> u256 list \<Rightarrow> (u256 \<Rightarrow> address \<Rightarrow> u256) \<Rightarrow>
   error + (u256 \<Rightarrow> address \<Rightarrow> u256)" where
  "update_base src dst ids vals bal =
     (if length ids \<noteq> length vals then Inl LengthMismatch
      else update_loop src dst (zip ids vals) bal)"

text \<open>
  Modelled from the spec: the acceptance check of the base contract. The receiver hook
  of \<open>to\<close> decides; the contract itself implements no receiver hook, so a transfer to
  its own address is refused.
\<close>

definition accepts :: "env \<Rightarrow> address \<Rightarrow> address \<Rightarrow> address \<Rightarrow> u256 list \<Rightarrow> u256 list \<Rightarrow> bool" where
  "accepts e operator src dst ids vals =
     (dst \<noteq> contract_address e \<and> onReceived e operator src dst ids vals)"

definition updateWithAcceptanceCheck ::
  "env \<Rightarrow> address \<Rightarrow> address \<Rightarrow> address \<Rightarrow> u256 list \<Rightarrow> u256 list \<Rightarrow>
   (u256 \<Rightarrow> address \<Rightarrow> u256) \<Rightarrow> error + (u256 \<Rightarrow> address \<Rightarrow> u256)" where
  "updateWithAcceptanceCheck e operator src dst ids vals bal =
     (case update_base src dst ids vals bal of
        Inl err \<Rightarrow> Inl err
      | Inr bal' \<Rightarrow>
          if dst \<noteq> 0 \<and> \<not> accepts e operator src dst ids vals then Inl InvalidArgument
          else Inr bal')"

definition mint_base ::
  "env \<Rightarrow> address \<Rightarrow> address \<Rightarrow> u256 \<Rightarrow> u256 \<Rightarrow> (u256 \<Rightarrow> address \<Rightarrow> u256) \<Rightarrow>
   error + (u256 \<Rightarrow> address \<Rightarrow> u256)" where
  "mint_base e operator dst tokenId v bal =
     (if dst = 0 then Inl InvalidArgument
      else updateWithAcceptanceCheck e operator 0 dst [tokenId] [v] bal)"

definition mintBatch_base ::
  "env \<Rightarrow> address \<Rightarrow> address \<Rightarrow> u256 list \<Rightarrow> u256 list \<Rightarrow> (u256 \<Rightarrow> address \<Rightarrow> u256) \<Rightarrow>
   error + (u256 \<Rightarrow> address \<Rightarrow> u256)" where
  "mintBatch_base e operator dst ids vals bal =
     (if dst = 0 then Inl InvalidArgument
      else updateWithAcceptanceCheck e operator 0 dst ids vals bal)"

definition burn_base ::
  "env \<Rightarrow> address \<Rightarrow> address \<Rightarrow> u256 \<Rightarrow> u256 \<Rightarrow> (u256 \<Rightarrow> address \<Rightarrow> u256) \<Rightarrow>
   error + (u256 \<Rightarrow> address \<Rightarrow> u256)" where
  "burn_base e operator src tokenId v bal =
     (if src = 0 then Inl InvalidArgument
      else updateWithAcceptanceCheck e operator src 0 [tokenId] [v] bal)"

definition balanceOf :: "state \<Rightarrow> address \<Rightarrow> u256 \<Rightarrow> u256" where
  "balanceOf s account tokenId = balances s tokenId account"

definition safeBatchTransferFrom ::
  "env \<Rightarrow> state \<Rightarrow> address \<Rightarrow> address \<Rightarrow> address \<Rightarrow> u256 list \<Rightarrow> u256 list \<Rightarrow> error + state" where
  "safeBatchTransferFrom e s caller src dst ids vals =
     (if src \<noteq> caller \<and> \<not> operatorApprovals s src caller then Inl Unauthorized
      else if dst = 0 then Inl InvalidArgument
      else if src = 0 then Inl InvalidArgument
      else case updateWithAcceptanceCheck e caller src dst ids vals (balances s) of
             Inl err \<Rightarrow> Inl err
           | Inr bal \<Rightarrow> Inr (s\<lparr>balances := bal\<rparr>))"

definition safeTransferFrom ::
  "env \<Rightarrow> state \<Rightarrow> address \<Rightarrow> address \<Rightarrow> address \<Rightarrow> u256 \<Rightarrow> u256 \<Rightarrow> error + state" where
  "safeTransferFrom e s caller src dst tokenId v =
     safeBatchTransferFrom e s caller src dst [tokenId] [v]"

definition setApprovalForAll :: "state \<Rightarrow> address \<Rightarrow> address \<Rightarrow> bool \<Rightarrow> error + state" where
  "setApprovalForAll s caller operator approved =
     (if operator = 0 then Inl InvalidArgument
      else Inr (s\<lparr>operatorApprovals :=
             (operatorApprovals s)(caller := (operatorApprovals s caller)(operator := approved))\<rparr>))"

definition transferOwnership :: "state \<Rightarrow> address \<Rightarrow> address \<Rightarrow> error + state" where
  "transferOwnership s caller newOwner =
     (if caller \<noteq> owner s then Inl Unauthorized
      else if newOwner = 0 then Inl InvalidArgument
      else Inr (s\<lparr>owner := newOwner\<rparr>))"

definition renounceOwnership :: "state \<Rightarrow> address \<Rightarrow> error + state" where
  "renounceOwnership s caller =
     (if caller \<noteq> owner s then Inl Unauthorized else Inr (s\<lparr>owner := 0\<rparr>))"


subsection \<open>The operations of \<^verbatim>\<open>SecretOfTheDeepNFT\<close>\<close>

definition set_supply :: "state \<Rightarrow> u256 \<Rightarrow> u256 \<Rightarrow> state" where
  "set_supply s tokenId c =
     s\<lparr>tokenInfo := (tokenInfo s)(tokenId := (tokenInfo s tokenId)\<lparr>currentSupply := c\<rparr>)\<rparr>"

definition createToken_internal :: "state \<Rightarrow> u256 \<Rightarrow> string \<Rightarrow> string \<Rightarrow> u256 \<Rightarrow> state" where
  "createToken_internal s tokenId nm descr maxSup =
     s\<lparr>tokenInfo := (tokenInfo s)(tokenId :=
         \<lparr>name = nm, description = descr, maxSupply = maxSup, currentSupply = 0, isActive = True\<rparr>)\<rparr>"

definition createToken ::
  "state \<Rightarrow> address \<Rightarrow> u256 \<Rightarrow> string \<Rightarrow> string \<Rightarrow> u256 \<Rightarrow> error + state" where
  "createToken s caller tokenId nm descr maxSup =
     (if caller \<noteq> owner s then Inl Unauthorized
      else if isActive (tokenInfo s tokenId) then Inl AlreadyExists
      else if \<not> 0 < maxSup then Inl InvalidArgument
      else Inr (createToken_internal s tokenId nm descr maxSup))"

definition mint :: "env \<Rightarrow> state \<Rightarrow> address \<Rightarrow> address \<Rightarrow> u256 \<Rightarrow> u256 \<Rightarrow> error + state" where
  "mint e s caller dst tokenId amount =
     (if caller \<noteq> owner s then Inl Unauthorized
      else if \<not> isActive (tokenInfo s tokenId) then Inl NotFound
      else case checked_add (currentSupply (tokenInfo s tokenId)) amount of
             Inl err \<Rightarrow> Inl err
           | Inr raised \<Rightarrow>
               if \<not> raised \<le> maxSupply (tokenInfo s tokenId) then Inl SupplyExceeded
               else case checked_add (currentSupply (tokenInfo s tokenId)) amount of
                      Inl err \<Rightarrow> Inl err
                    | Inr c \<Rightarrow>
                        let s1 = set_supply s tokenId c
                        in case mint_base e caller dst tokenId amount (balances s1) of
                             Inl err \<Rightarrow> Inl err
                           | Inr bal \<Rightarrow> Inr (s1\<lparr>balances := bal\<rparr>))"

text \<open>
  The first loop of \<^verbatim>\<open>mintBatch\<close>: for each index, both requirements and then the
  increment of \<open>currentSupply\<close>, before the next index is looked at. The two arrays have
  the same length here, so they are walked as a list of pairs.
\<close>

fun mintBatch_loop :: "(u256 \<times> u256) list \<Rightarrow> state \<Rightarrow> error + state" where
  "mintBatch_loop [] s = Inr s"
| "mintBatch_loop ((tokenId, amount) # rest) s =
     (if \<not> isActive (tokenInfo s tokenId) then Inl NotFound
      else case checked_add (currentSupply (tokenInfo s tokenId)) amount of
             Inl err \<Rightarrow> Inl err
           | Inr raised \<Rightarrow>
               if \<not> raised \<le> maxSupply (tokenInfo s tokenId) then Inl SupplyExceeded
               else case checked_add (currentSupply (tokenInfo s tokenId)) amount of
                      Inl err \<Rightarrow> Inl err
                    | Inr c \<Rightarrow> mintBatch_loop rest (set_supply s tokenId c))"

definition mintBatch ::
  "env \<Rightarrow> state \<Rightarrow> address \<Rightarrow> address \<Rightarrow> u256 list \<Rightarrow> u256 list \<Rightarrow> error + state" where
  "mintBatch e s caller dst tokenIds amounts =
     (if caller \<noteq> owner s then Inl Unauthorized
      else if length tokenIds \<noteq> length amounts then Inl LengthMismatch
      else case mintBatch_loop (zip tokenIds amounts) s of
             Inl err \<Rightarrow> Inl err
           | Inr s1 \<Rightarrow>
               (case mintBatch_base e caller dst tokenIds amounts (balances s1) of
                  Inl err \<Rightarrow> Inl err
                | Inr bal \<Rightarrow> Inr (s1\<lparr>balances := bal\<rparr>)))"

definition burn :: "env \<Rightarrow> state \<Rightarrow> address \<Rightarrow> address \<Rightarrow> u256 \<Rightarrow> u256 \<Rightarrow> error + state" where
  "burn e s caller src tokenId amount =
     (if \<not> (caller = src \<or> caller = owner s) then Inl Unauthorized
      else case checked_sub (currentSupply (tokenInfo s tokenId)) amount of
             Inl err \<Rightarrow> Inl err
           | Inr c \<Rightarrow>
               let s1 = set_supply s tokenId c
               in case burn_base e caller src tokenId amount (balances s1) of
                    Inl err \<Rightarrow> Inl err
                  | Inr bal \<Rightarrow> Inr (s1\<lparr>balances := bal\<rparr>))"

definition payback ::
  "env \<Rightarrow> state \<Rightarrow> address \<Rightarrow> address \<Rightarrow> u256 \<Rightarrow> u256 \<Rightarrow> u256 \<Rightarrow> error + state" where
  "payback e s caller src tokenId tokenAmount usdcAmount =
     (if caller \<noteq> owner s then Inl Unauthorized
      else if \<not> isActive (tokenInfo s tokenId) then Inl NotFound
      else if \<not> 0 < tokenAmount then Inl InvalidArgument
      else if \<not> tokenAmount \<le> balanceOf s src tokenId then Inl InsufficientBalance
      else if \<not> 0 < usdcAmount then Inl InvalidArgument
      else if \<not> usdcAmount \<le> usdc_balance (usdc s) (contract_address e) then Inl InsufficientBalance
      else case checked_sub (currentSupply (tokenInfo s tokenId)) tokenAmount of
             Inl err \<Rightarrow> Inl err
           | Inr c \<Rightarrow>
               let s1 = set_supply s tokenId c
               in case burn_base e caller src tokenId tokenAmount (balances s1) of
                    Inl err \<Rightarrow> Inl err
                  | Inr bal \<Rightarrow>
                      (case usdc_transfer (usdc s1) (contract_address e) src usdcAmount of
                         Inl err \<Rightarrow> Inl err
                       | Inr (ok, l) \<Rightarrow>
                           if \<not> ok then Inl TransferFailed
                           else Inr (s1\<lparr>balances := bal, usdc := l\<rparr>)))"

definition payDividend :: "env \<Rightarrow> state \<Rightarrow> address \<Rightarrow> address \<Rightarrow> u256 \<Rightarrow> error + state" where
  "payDividend e s caller dst usdcAmount =
     (if caller \<noteq> owner s then Inl Unauthorized
      else if dst = 0 then Inl InvalidArgument
      else if \<not> 0 < usdcAmount then Inl InvalidArgument
      else if \<not> usdcAmount \<le> usdc_balance (usdc s) (contract_address e) then Inl InsufficientBalance
      else case usdc_transfer (usdc s) (contract_address e) dst usdcAmount of
             Inl err \<Rightarrow> Inl err
           | Inr (ok, l) \<Rightarrow> if \<not> ok then Inl TransferFailed else Inr (s\<lparr>usdc := l\<rparr>))"

definition getUSDCBalance :: "env \<Rightarrow> state \<Rightarrow> u256" where
  "getUSDCBalance e s = usdc_balance (usdc s) (contract_address e)"

definition withdrawUSDC :: "env \<Rightarrow> state \<Rightarrow> address \<Rightarrow> u256 \<Rightarrow> error + state" where
  "withdrawUSDC e s caller amount =
     (if caller \<noteq> owner s then Inl Unauthorized
      else if \<not> 0 < amount then Inl InvalidArgument
      else if \<not> amount \<le> usdc_balance (usdc s) (contract_address e) then Inl InsufficientBalance
      else case usdc_transfer (usdc s) (contract_address e) (owner s) amount of
             Inl err \<Rightarrow> Inl err
           | Inr (ok, l) \<Rightarrow> if \<not> ok then Inl TransferFailed else Inr (s\<lparr>usdc := l\<rparr>))"

text \<open>
  \<^verbatim>\<open>addUSDC\<close> carries the modifier \<^verbatim>\<open>onlyOwner\<close>; the modifier runs before the
  body.
\<close>

definition addUSDC :: "env \<Rightarrow> state \<Rightarrow> address \<Rightarrow> u256 \<Rightarrow> error + state" where
  "addUSDC e s caller amount =
     (if caller \<noteq> owner s then Inl Unauthorized
      else if \<not> 0 < amount then Inl InvalidArgument
      else if \<not> amount \<le> usdc_balance (usdc s) caller then Inl InsufficientBalance
      else case usdc_transferFrom (usdc s) (contract_address e) caller (contract_address e) amount of
             Inl err \<Rightarrow> Inl err
           | Inr (ok, l) \<Rightarrow> if \<not> ok then Inl TransferFailed else Inr (s\<lparr>usdc := l\<rparr>))"

definition updateTokenInfo :: "state \<Rightarrow> address \<Rightarrow> u256 \<Rightarrow> string \<Rightarrow> string \<Rightarrow> error + state" where
  "updateTokenInfo s caller tokenId nm descr =
     (if caller \<noteq> owner s then Inl Unauthorized
      else if \<not> isActive (tokenInfo s tokenId) then Inl NotFound
      else Inr (s\<lparr>tokenInfo := (tokenInfo s)(tokenId :=
                  (tokenInfo s tokenId)\<lparr>name := nm, description := descr\<rparr>)\<rparr>))"

definition setBaseURI :: "state \<Rightarrow> address \<Rightarrow> string \<Rightarrow> error + state" where
  "setBaseURI s caller newBaseURI =
     (if caller \<noteq> owner s then Inl Unauthorized else Inr (s\<lparr>baseURI := newBaseURI\<rparr>))"

definition uri :: "state \<Rightarrow> u256 \<Rightarrow> error + string" where
  "uri s tokenId =
     (if \<not> isActive (tokenInfo s tokenId) then Inl NotFound
      else resolve (baseURI s) tokenId)"

definition getTokenInfo :: "state \<Rightarrow> u256 \<Rightarrow> string \<times> string \<times> u256 \<times> u256 \<times> bool" where
  "getTokenInfo s tokenId =
     (let info = tokenInfo s tokenId
      in (name info, description info, maxSupply info, currentSupply info, isActive info))"

text \<open>
  The constructor: the deployer becomes the owner, the base URI is set, and the three
  sample tokens are created. A storage slot never written holds zeros.
\<close>

definition empty_TokenInfo :: TokenInfo where
  "empty_TokenInfo =
     \<lparr>name = [], description = [], maxSupply = 0, currentSupply = 0, isActive = False\<rparr>"

definition constructor :: "address \<Rightarrow> usdc_ledger \<Rightarrow> state" where
  "constructor deployer l =
     (let s0 = \<lparr>owner = deployer,
                tokenInfo = (\<lambda>tokenId. empty_TokenInfo),
                balances = (\<lambda>tokenId account. 0),
                operatorApprovals = (\<lambda>account operator. False),
                baseURI = ''https://raw.githubusercontent.com/davevurby/nft-secret-of-the-deep/refs/heads/main/metadata/{id}.json'',
                usdc = l\<rparr>;
          s1 = createToken_internal s0 1 ''GOLD'' ''Gold'' 25;
          s2 = createToken_internal s1 2 ''SILVER'' ''Silver'' 20
      in createToken_internal s2 3 ''BRONZE'' ''Bronze'' 50)"

subsection \<open>Calls and reachable states\<close>

datatype operation =
    CreateToken u256 string string u256
  | Mint address u256 u256
  | MintBatch address "u256 list" "u256 list"
  | Burn address u256 u256
  | Payback address u256 u256 u256
  | PayDividend address u256
  | WithdrawUSDC u256
  | AddUSDC u256
  | UpdateTokenInfo u256 string string
  | SetBaseURI string
  | SafeTransferFrom address address u256 u256
  | SafeBatchTransferFrom address address "u256 list" "u256 list"
  | SetApprovalForAll address bool
  | TransferOwnership address
  | RenounceOwnership

fun exec :: "env \<Rightarrow> address \<Rightarrow> operation \<Rightarrow> state \<Rightarrow> error + state" where
  "exec e caller (CreateToken tokenId nm descr maxSup) s = createToken s caller tokenId nm descr maxSup"
| "exec e caller (Mint dst tokenId amount) s = mint e s caller dst tokenId amount"
| "exec e caller (MintBatch dst tokenIds amounts) s = mintBatch e s caller dst tokenIds amounts"
| "exec e caller (Burn src tokenId amount) s = burn e s caller src tokenId amount"
| "exec e caller (Payback src tokenId tokenAmount usdcAmount) s =
     payback e s caller src tokenId tokenAmount usdcAmount"
| "exec e caller (PayDividend dst usdcAmount) s = payDividend e s caller dst usdcAmount"
| "exec e caller (WithdrawUSDC amount) s = withdrawUSDC e s caller amount"
| "exec e caller (AddUSDC amount) s = addUSDC e s caller amount"
| "exec e caller (UpdateTokenInfo tokenId nm descr) s = updateTokenInfo s caller tokenId nm descr"
| "exec e caller (SetBaseURI newBaseURI) s = setBaseURI s caller newBaseURI"
| "exec e caller (SafeTransferFrom src dst tokenId v) s = safeTransferFrom e s caller src dst tokenId v"
| "exec e caller (SafeBatchTransferFrom src dst ids vals) s =
     safeBatchTransferFrom e s caller src dst ids vals"
| "exec e caller (SetApprovalForAll operator approved) s = setApprovalForAll s caller operator approved"
| "exec e caller (TransferOwnership newOwner) s = transferOwnership s caller newOwner"
| "exec e caller RenounceOwnership s = renounceOwnership s caller"

text \<open>
  A call either completes and commits its storage, or aborts and leaves the storage as
  it was before the call: the result is the storage after the call and the failure, if
  any.
\<close>

definition call :: "env \<Rightarrow> address \<Rightarrow> operation \<Rightarrow> state \<Rightarrow> state \<times> error option" where
  "call e caller oper s =
     (case exec e caller oper s of
        Inl err \<Rightarrow> (s, Some err)
      | Inr s' \<Rightarrow> (s', None))"

text \<open>
  The states the contract can be in: the state after the constructor, and every state
  that a call by some account (never the zero address) or an activity on the external
  stable coin leads to. \<^verbatim>\<open>setUSDCAddress\<close> points the contract at another stable
  coin, which is a change of the external ledger too.
\<close>

inductive reachable :: "env \<Rightarrow> state \<Rightarrow> bool" for e :: env where
  reach_init: "reachable e (constructor deployer l)"
| reach_call: "reachable e s \<Longrightarrow> caller \<noteq> 0 \<Longrightarrow> reachable e (fst (call e caller oper s))"
| reach_usdc: "reachable e s \<Longrightarrow> reachable e (s\<lparr>usdc := l\<rparr>)"

text \<open>The sum over all accounts of the holder balances of one token id.\<close>

definition held :: "(u256 \<Rightarrow> address \<Rightarrow> u256) \<Rightarrow> u256 \<Rightarrow> nat" where
  "held bal tokenId = (\<Sum>account \<in> UNIV. unat (bal tokenId account))"

definition total_held :: "state \<Rightarrow> u256 \<Rightarrow> nat" where
  "total_held s tokenId = held (balances s) tokenId"

text \<open>The amount a list of (id, value) pairs carries for one token id.\<close>

definition carried :: "u256 \<Rightarrow> (u256 \<times> u256) list \<Rightarrow> nat" where
  "carried tokenId ps = sum_list (map (\<lambda>p. unat (snd p)) (filter (\<lambda>p. fst p = tokenId) ps))"

text \<open>
  The invariant of the ledger at one token id: the balances add up to the current
  supply, the current supply is within the maximum, a token that was never created has
  no supply, and neither the zero address nor the contract itself holds anything.
\<close>

definition ledger_inv :: "env \<Rightarrow> state \<Rightarrow> u256 \<Rightarrow> bool" where
  "ledger_inv e s tokenId =
     (total_held s tokenId = unat (currentSupply (tokenInfo s tokenId)) \<and>
      currentSupply (tokenInfo s tokenId) \<le> maxSupply (tokenInfo s tokenId) \<and>
      (isActive (tokenInfo s tokenId) \<or> currentSupply (tokenInfo s tokenId) = 0) \<and>
      balances s tokenId 0 = 0 \<and>
      balances s tokenId (contract_address e) = 0)"





section \<open>The event scanner\<close>

subsection \<open>The remote ledger\<close>

datatype event_name = TransferSingle | TransferBatch

text \<open>The arguments of a log entry: sender, receiver, and one id and value or a list of them.\<close>

datatype log_args =
    SingleArgs string string nat nat
  | BatchArgs string string "nat list" "nat list"

record raw_event =
  log_blockNumber :: nat
  log_index :: nat
  log_transactionHash :: string
  log_args :: log_args

definition eventName :: "raw_event \<Rightarrow> event_name" where
  "eventName ev = (case log_args ev of SingleArgs _ _ _ _ \<Rightarrow> TransferSingle | BatchArgs _ _ _ _ \<Rightarrow> TransferBatch)"

text \<open>
  A query of the remote ledger fails with a message; the scanner only asks whether the
  message contains "range is too large".
\<close>

datatype query_error = RangeTooLarge | OtherError

text \<open>
  The provider as the scanner uses it: the current block number (\<open>None\<close> when the call
  throws), the query of one event kind over a block range, and the block of an event
  with its timestamp and number (\<open>None\<close> when the call throws).
\<close>

record provider =
  getBlockNumber :: "nat option"
  queryFilter :: "event_name \<Rightarrow> nat \<Rightarrow> nat \<Rightarrow> query_error + raw_event list"
  getBlock :: "raw_event \<Rightarrow> (nat \<times> nat) option"

datatype scan_error = NoProvider | ProviderFailure

subsection \<open>\<^verbatim>\<open>getAllEventsInChunks\<close>\<close>

text \<open>
  The body of the \<^verbatim>\<open>try\<close>: both queries over the same range; the first failure is
  the one that is caught.
\<close>

definition query_chunk :: "provider \<Rightarrow> nat \<Rightarrow> nat \<Rightarrow> query_error + raw_event list" where
  "query_chunk p startBlock endBlock =
     (case queryFilter p TransferSingle startBlock endBlock of
        Inl err \<Rightarrow> Inl err
      | Inr singleEvents \<Rightarrow>
          (case queryFilter p TransferBatch startBlock endBlock of
             Inl err \<Rightarrow> Inl err
           | Inr batchEvents \<Rightarrow> Inr (singleEvents @ batchEvents)))"

text \<open>
  The result of a scan: the events collected, and next to them the block ranges the
  scanner asked the provider for, in the order of the queries (the effect of the scan
  on the remote source).
\<close>

type_synonym scan_result = "raw_event list \<times> (nat \<times> nat) list"

text \<open>
  The \<^verbatim>\<open>for\<close> loop. \<open>retry\<close> is the recursive call of \<^verbatim>\<open>getAllEventsInChunks\<close>
  with a start block and a chunk size; it has no end block. After a successful retry
  the source sets \<open>startBlock\<close> to \<open>endBlock\<close>, and the loop header then adds
  \<open>chunkSize\<close>. The end block is computed over the integers, as the source computes it.
\<close>

function chunk_loop ::
  "(nat \<Rightarrow> nat \<Rightarrow> (scan_error + scan_result) option) \<Rightarrow> provider \<Rightarrow> nat \<Rightarrow> nat \<Rightarrow> nat \<Rightarrow>
   scan_result \<Rightarrow> (scan_error + scan_result) option" where
  "chunk_loop retry p currentBlock chunkSize startBlock (allEvents, asked) =
     (if startBlock \<le> currentBlock then
        (let endBlock = min (int startBlock + int chunkSize - 1) (int currentBlock) in
         if int startBlock > endBlock then Some (Inr (allEvents, asked))
         else
           (case query_chunk p startBlock (nat endBlock) of
              Inr found \<Rightarrow>
                chunk_loop retry p currentBlock chunkSize (startBlock + chunkSize)
                  (allEvents @ found, asked @ [(startBlock, nat endBlock)])
            | Inl RangeTooLarge \<Rightarrow>
                (let smallerChunkSize = max 10 (chunkSize div 10) in
                 case retry startBlock smallerChunkSize of
                   None \<Rightarrow> None
                 | Some (Inl nestedError) \<Rightarrow>
                     chunk_loop retry p currentBlock chunkSize (startBlock + chunkSize)
                       (allEvents, asked @ [(startBlock, nat endBlock)])
                 | Some (Inr (smallerEvents, smallerAsked)) \<Rightarrow>
                     chunk_loop retry p currentBlock chunkSize (nat endBlock + chunkSize)
                       (allEvents @ smallerEvents,
                        asked @ [(startBlock, nat endBlock)] @ smallerAsked))
            | Inl OtherError \<Rightarrow>
                chunk_loop retry p currentBlock chunkSize (startBlock + chunkSize)
                  (allEvents, asked @ [(startBlock, nat endBlock)])))
      else Some (Inr (allEvents, asked)))"
  by pat_completeness auto
termination
  by (relation "measure (\<lambda>(retry, p, currentBlock, chunkSize, startBlock, acc).
        Suc currentBlock - startBlock)")
     (auto simp: min_def split: if_splits)

declare chunk_loop.simps [simp del]

text \<open>
  The scanner. The recursion of the source is not bounded: a retry with chunk size 10
  of a range the provider still rejects retries with chunk size 10 again. \<open>fuel\<close>
  bounds the depth of the recursion, and \<open>None\<close> says that the fuel ran out.
  A missing start block and the start block 0 both select the last 100000 blocks.
\<close>

fun getAllEventsInChunks ::
  "nat \<Rightarrow> provider option \<Rightarrow> nat option \<Rightarrow> nat \<Rightarrow> (scan_error + scan_result) option" where
  "getAllEventsInChunks 0 po fromBlock chunkSize = None"
| "getAllEventsInChunks (Suc fuel) po fromBlock chunkSize =
     (case po of
        None \<Rightarrow> Some (Inl NoProvider)
      | Some p \<Rightarrow>
          (case getBlockNumber p of
             None \<Rightarrow> Some (Inl ProviderFailure)
           | Some currentBlock \<Rightarrow>
               (let blocksToScanBack = 100000;
                    startFrom = (case fromBlock of
                                   None \<Rightarrow> currentBlock - blocksToScanBack
                                 | Some b \<Rightarrow> if b = 0 then currentBlock - blocksToScanBack else b)
                in chunk_loop (\<lambda>b c. getAllEventsInChunks fuel po (Some b) c)
                     p currentBlock chunkSize startFrom ([], []))))"

subsection \<open>\<^verbatim>\<open>getTokenEvents\<close>\<close>

datatype event_type = single | batch

text \<open>
  The fields of \<^verbatim>\<open>TokenTransferEvent\<close>; the optional ones are options. The field
  \<^verbatim>\<open>dateTime\<close> is the timestamp printed as a date and is left out.
\<close>

record TokenTransferEvent =
  eventType :: event_type
  blockNumber :: nat
  timestamp :: nat
  from_address :: string
  to_address :: string
  tokenId_opt :: "nat option"
  amount_opt :: "nat option"
  tokenIds_opt :: "nat list option"
  amounts_opt :: "nat list option"
  transactionHash :: string

record TokenEventsData =
  totalEvents :: nat
  singleTransfers :: nat
  batchTransfers :: nat
  events :: "TokenTransferEvent list"

text \<open>\<^verbatim>\<open>Promise.all\<close> over the events: one failing block lookup fails the whole.\<close>

fun with_blocks :: "provider \<Rightarrow> raw_event list \<Rightarrow> (raw_event \<times> nat \<times> nat) list option" where
  "with_blocks p [] = Some []"
| "with_blocks p (ev # rest) =
     (case getBlock p ev of
        None \<Rightarrow> None
      | Some (ts, bn) \<Rightarrow>
          (case with_blocks p rest of
             None \<Rightarrow> None
           | Some others \<Rightarrow> Some ((ev, ts, bn) # others)))"

definition convert_event :: "raw_event \<times> nat \<times> nat \<Rightarrow> TokenTransferEvent" where
  "convert_event x =
     (case x of (ev, ts, bn) \<Rightarrow>
        (case log_args ev of
           SingleArgs src dst i v \<Rightarrow>
             \<lparr>eventType = single, blockNumber = bn, timestamp = ts, from_address = src,
              to_address = dst, tokenId_opt = Some i, amount_opt = Some v,
              tokenIds_opt = None, amounts_opt = None,
              transactionHash = log_transactionHash ev\<rparr>
         | BatchArgs src dst is vs \<Rightarrow>
             \<lparr>eventType = batch, blockNumber = bn, timestamp = ts, from_address = src,
              to_address = dst, tokenId_opt = None, amount_opt = None,
              tokenIds_opt = Some is, amounts_opt = Some vs,
              transactionHash = log_transactionHash ev\<rparr>))"

text \<open>
  \<^verbatim>\<open>getTokenEvents\<close> scans with the default chunk size 100, looks up the block of
  every event, sorts by timestamp (the sort of the language is stable, as \<open>sort_key\<close>
  is) and converts. Every failure on the way is reported as a failed result.
\<close>

definition getTokenEvents ::
  "nat \<Rightarrow> provider option \<Rightarrow> nat option \<Rightarrow> (scan_error + TokenEventsData) option" where
  "getTokenEvents fuel po fromBlock =
     (case getAllEventsInChunks fuel po fromBlock 100 of
        None \<Rightarrow> None
      | Some (Inl err) \<Rightarrow> Some (Inl err)
      | Some (Inr (allEvents, asked)) \<Rightarrow>
          (case po of
             None \<Rightarrow> Some (Inl NoProvider)
           | Some p \<Rightarrow>
               (case with_blocks p allEvents of
                  None \<Rightarrow> Some (Inl ProviderFailure)
                | Some eventsWithTimestamps \<Rightarrow>
                    (let sorted = sort_key (\<lambda>x. fst (snd x)) eventsWithTimestamps;
                         evs = map convert_event sorted
                     in Some (Inr \<lparr>totalEvents = length evs,
                                   singleTransfers = length (filter (\<lambda>ev. eventType ev = single) evs),
                                   batchTransfers = length (filter (\<lambda>ev. eventType ev = batch) evs),
                                   events = evs\<rparr>)))))"

section \<open>Example data\<close>

text \<open>A stable-coin ledger on which nobody holds or has approved anything.\<close>

definition no_funds :: usdc_ledger where
  "no_funds = \<lparr>usdc_balance = (\<lambda>account. 0), usdc_allowance = (\<lambda>account spender. 0)\<rparr>"

text \<open>
  A ledger on which the contract at address 99 holds 100 USDC, the accounts 1 and 5 hold
  200 and 10 USDC, and every account has approved 1000 USDC to the contract.
\<close>

definition rich_ledger :: usdc_ledger where
  "rich_ledger =
     \<lparr>usdc_balance = (\<lambda>account. if account = 99 then 100000000
                               else if account = 1 then 200000000
                               else if account = 5 then 10000000 else 0),
      usdc_allowance = (\<lambda>account spender. if spender = 99 then 1000000000 else 0)\<rparr>"

text \<open>The contract deployed at address 99, among receivers that accept every transfer.\<close>

definition example_env :: env where
  "example_env = \<lparr>contract_address = 99, onReceived = (\<lambda>operator src dst ids vals. True)\<rparr>"

text \<open>
  The state after the deployer 1 has minted 10 units of token 3 to the account 5, on
  each of the two ledgers.
\<close>

definition minted_state :: "usdc_ledger \<Rightarrow> state" where
  "minted_state l = fst (call example_env 1 (Mint 5 3 10) (constructor 1 l))"

text \<open>
  A remote source whose tip is \<open>tip\<close>, which holds one single-transfer event in each
  block of \<open>blocks\<close>, rejects every query that spans more than 20 blocks as too large,
  and answers every other query with the events of the queried blocks. The block \<open>b\<close>
  has the timestamp \<open>1000 + 2 * b\<close>.
\<close>

definition event_at :: "nat \<Rightarrow> raw_event" where
  "event_at b =
     \<lparr>log_blockNumber = b, log_index = 0, log_transactionHash = ''0xabc'',
      log_args = SingleArgs ''0x0'' ''0x5'' 3 10\<rparr>"

definition limited_provider :: "nat \<Rightarrow> nat list \<Rightarrow> provider" where
  "limited_provider tip blocks =
     \<lparr>getBlockNumber = Some tip,
      queryFilter = (\<lambda>kind fromBlock toBlock.
         if 20 < toBlock + 1 - fromBlock then Inl RangeTooLarge
         else Inr (if kind = TransferSingle
                   then map event_at (filter (\<lambda>b. fromBlock \<le> b \<and> b \<le> toBlock) blocks)
                   else [])),
      getBlock = (\<lambda>ev. Some (1000 + 2 * log_blockNumber ev, log_blockNumber ev))\<rparr>"

text \<open>The \<open>n\<close> lowest hexadecimal digits of a number, most significant first.\<close>

fun hex_nat :: "nat \<Rightarrow> nat \<Rightarrow> string" where
  "hex_nat 0 k = []"
| "hex_nat (Suc n) k = hex_nat n (k div 16) @ [HEX_SYMBOLS ! (k mod 16)]"

section \<open>Properties of the URI template resolver\<close>

subsection \<open>The hexadecimal string\<close>

lemma unat_and_15: "unat ((v::u256) AND 0xf) = unat v mod 16"
proof -
  have "(v AND 0xf) = take_bit 4 v"
    by (simp add: take_bit_eq_mask mask_eq_exp_minus_1)
  then show ?thesis by (simp add: take_bit_eq_mod unat_mod)
qed

lemma unat_drop4: "unat (drop_bit 4 (v::u256)) = unat v div 16"
  by (simp add: drop_bit_eq_div unat_div)

lemma hex_loop_eq: "n \<le> length buf \<Longrightarrow> hex_loop n v buf = hex_nat n (unat v) @ drop n buf"
proof (induction n arbitrary: v buf)
  case 0 then show ?case by simp
next
  case (Suc n)
  have "hex_loop (Suc n) v buf = hex_nat n (unat v div 16) @ drop n (buf[n := HEX_SYMBOLS ! (unat v mod 16)])"
    using Suc by (simp add: unat_and_15 unat_drop4)
  also have "drop n (buf[n := HEX_SYMBOLS ! (unat v mod 16)]) = (HEX_SYMBOLS ! (unat v mod 16)) # drop (Suc n) buf"
    using Suc.prems by (simp add: drop_update_cancel Cons_nth_drop_Suc[symmetric] )
  finally show ?case by simp
qed


lemma length_hex_nat: "length (hex_nat n k) = n"
  by (induction n arbitrary: k) auto

lemma hex_digit_table: "\<forall>d \<in> set [0..<16]. hex_digit (HEX_SYMBOLS ! d) = d"
  by code_simp

lemma hex_digit_symbol: "d < 16 \<Longrightarrow> hex_digit (HEX_SYMBOLS ! d) = d"
  using hex_digit_table by simp

lemma hexval_snoc: "hexval (xs @ [c]) = 16 * hexval xs + hex_digit c"
  by (simp add: hexval_def)

lemma hexval_hex_nat: "hexval (hex_nat n k) = k mod 16 ^ n"
proof (induction n arbitrary: k)
  case 0 then show ?case by (simp add: hexval_def)
next
  case (Suc n)
  have "hexval (hex_nat (Suc n) k) = 16 * ((k div 16) mod 16 ^ n) + k mod 16"
    by (simp add: hexval_snoc Suc hex_digit_symbol)
  also have "\<dots> = k mod 16 ^ Suc n"
    by (simp add: mod_mult2_eq)
  finally show ?case .
qed

lemma set_hex_nat: "set (hex_nat n k) \<subseteq> set HEX_SYMBOLS"
proof (induction n arbitrary: k)
  case 0 then show ?case by simp
next
  case (Suc n)
  have "k mod 16 < length HEX_SYMBOLS" by (simp add: HEX_SYMBOLS_def)
  then have "HEX_SYMBOLS ! (k mod 16) \<in> set HEX_SYMBOLS" by (rule nth_mem)
  with Suc show ?case by simp
qed

lemma hex_nat_64_0: "hex_nat 64 0 = ''0000000000000000000000000000000000000000000000000000000000000000''"
  by code_simp

lemma toHexString_hex_nat: "toHexString v = hex_nat 64 (unat v)"
proof (cases "v = 0")
  case True
  then show ?thesis by (simp add: toHexString_def hex_nat_64_0)
next
  case False
  then show ?thesis by (simp add: toHexString_def hex_loop_eq)
qed


subsection \<open>The substitution loop\<close>

lemma take_Suc_update: "ri < length res \<Longrightarrow> take (Suc ri) (res[ri := c]) = take ri res @ [c]"
  by (simp add: take_Suc_conv_app_nth)

lemma copy_bytes_run:
  "ri \<le> length res \<Longrightarrow> copy_bytes cs res ri =
     (if ri + length cs \<le> length res
      then Inr (take ri res @ cs @ drop (ri + length cs) res, ri + length cs)
      else Inl PanicIndex)"
proof (induction cs arbitrary: res ri)
  case Nil
  then show ?case by simp
next
  case (Cons c cs)
  show ?case
  proof (cases "ri < length res")
    case True
    then show ?thesis
      by (simp add: Cons take_Suc_update)
  next
    case False
    then show ?thesis by simp
  qed
qed

lemma at_id_iff: "at_id t = (\<exists>rest. t = ''{id}'' @ rest)"
proof
  assume "at_id t"
  then have "take 4 t = ''{id}''" by (simp only: at_id_def)
  moreover have "t = take 4 t @ drop 4 t" by (rule append_take_drop_id [symmetric])
  ultimately have "t = ''{id}'' @ drop 4 t" by (simp only:)
  then show "\<exists>rest. t = ''{id}'' @ rest" ..
next
  assume "\<exists>rest. t = ''{id}'' @ rest"
  then show "at_id t" by (auto simp: at_id_def)
qed

lemma at_id_Cons4:
  "at_id (a # b # c # d # rest) = (a = CHR 0x7b \<and> b = CHR 0x69 \<and> c = CHR 0x64 \<and> d = CHR 0x7d)"
  by (simp add: at_id_def)

lemma at_id_short: "length t < 4 \<Longrightarrow> \<not> at_id t"
  by (auto simp: at_id_iff)

lemma at_id_first: "at_id (a # t) \<Longrightarrow> a = CHR 0x7b"
  by (auto simp: at_id_iff)

lemma expand_nomatch: "\<not> at_id (a # xs) \<Longrightarrow> expand h (a # xs) = a # expand h xs"
  by (cases "(h, a # xs)" rule: expand.cases) (auto simp: at_id_Cons4)

lemma match_at:
  "i < length tb \<Longrightarrow>
   at_id (drop i tb) =
   (i + 3 < length tb \<and> tb ! i = CHR 0x7b \<and> tb ! (i + 1) = CHR 0x69 \<and>
    tb ! (i + 2) = CHR 0x64 \<and> tb ! (i + 3) = CHR 0x7d)"
proof (cases "i + 3 < length tb")
  case True
  then have "drop i tb = tb ! i # tb ! (i + 1) # tb ! (i + 2) # tb ! (i + 3) # drop (i + 4) tb"
    by (simp add: Cons_nth_drop_Suc numeral_eq_Suc)
  then show ?thesis using True by (simp add: at_id_Cons4)
next
  case False
  then have "length (drop i tb) < 4" by simp
  then have "\<not> at_id (drop i tb)" by (rule at_id_short)
  then show ?thesis using False by simp
qed

lemma drop_match:
  assumes "at_id (drop i tb)"
  shows "drop i tb = ''{id}'' @ drop (i + 4) tb"
proof -
  have "drop i tb = take 4 (drop i tb) @ drop 4 (drop i tb)"
    by (rule append_take_drop_id [symmetric])
  then show ?thesis
    using assms by (simp add: add.commute at_id_def)
qed

lemma uri_loop_run:
  "3 \<le> length tb \<Longrightarrow> ri \<le> length res \<Longrightarrow>
   uri_loop tb tid i res ri =
     (let out = expand (toHexString tid) (drop i tb) in
      if ri + length out \<le> length res
      then Inr (take ri res @ out @ drop (ri + length out) res, ri + length out)
      else Inl PanicIndex)"
proof (induction tb tid i res ri rule: uri_loop.induct)
  case (1 tb tid i res ri)
  let ?h = "toHexString tid"
  show ?case
  proof (cases "i < length tb")
    case False
    then show ?thesis using "1.prems" by (subst uri_loop.simps) simp
  next
    case inb: True
    show ?thesis
    proof (cases "at_id (drop i tb)")
      case True
      then have m: "i + 3 < length tb" "tb ! i = CHR 0x7b" "tb ! (i + 1) = CHR 0x69"
          "tb ! (i + 2) = CHR 0x64" "tb ! (i + 3) = CHR 0x7d"
        using match_at [OF inb] by simp_all
      have lt: "i < length tb - 3"
        using m(1) by arith
      have ex: "expand ?h (drop i tb) = ?h @ expand ?h (drop (i + 4) tb)"
        using drop_match [OF True] by simp
      show ?thesis
      proof (cases "ri + length ?h \<le> length res")
        case fits: True
        define res' where "res' = take ri res @ ?h @ drop (ri + length ?h) res"
        have cp: "copy_bytes ?h res ri = Inr (res', ri + length ?h)"
          using fits "1.prems" by (simp add: copy_bytes_run res'_def)
        have len': "length res' = length res"
          using fits by (simp add: res'_def)
        have ih: "uri_loop tb tid (i + 3 + 1) res' (ri + length ?h) =
            (let out = expand ?h (drop (i + 3 + 1) tb) in
             if ri + length ?h + length out \<le> length res'
             then Inr (take (ri + length ?h) res' @ out @ drop (ri + length ?h + length out) res',
                       ri + length ?h + length out)
             else Inl PanicIndex)"
          using "1.IH"(1) [OF inb _ lt _ cp refl "1.prems"(1)] m "1.prems" fits len'
          by simp
        have tk: "take (ri + length ?h) res' = take ri res @ ?h"
          using "1.prems" by (simp add: res'_def)
        have dr: "\<And>k. ri + length ?h \<le> k \<Longrightarrow> drop k res' = drop k res"
          using "1.prems" fits by (simp add: res'_def)
        have step: "uri_loop tb tid i res ri = uri_loop tb tid (i + 3 + 1) res' (ri + length ?h)"
          using inb m lt "1.prems" cp by (subst uri_loop.simps) simp
        show ?thesis
          unfolding step ih using ex tk dr len' by (simp add: Let_def ac_simps)
      next
        case False
        then have cp: "copy_bytes ?h res ri = Inl PanicIndex"
          using "1.prems" by (simp add: copy_bytes_run)
        have "uri_loop tb tid i res ri = Inl PanicIndex"
          using inb m lt "1.prems" cp by (subst uri_loop.simps) simp
        then show ?thesis using False ex by (simp add: Let_def)
      qed
    next
      case nomatch: False
      have dr: "drop i tb = tb ! i # drop (Suc i) tb"
        using inb by (simp add: Cons_nth_drop_Suc)
      have ex: "expand ?h (drop i tb) = tb ! i # expand ?h (drop (Suc i) tb)"
        using nomatch dr expand_nomatch by metis
      have nm: "\<not> (i + 3 < length tb \<and> tb ! i = CHR 0x7b \<and> tb ! (i + 1) = CHR 0x69 \<and>
          tb ! (i + 2) = CHR 0x64 \<and> tb ! (i + 3) = CHR 0x7d)"
        using nomatch match_at [OF inb] by simp
      show ?thesis
      proof (cases "ri < length res")
        case wr: True
        let ?res' = "res[ri := tb ! i]"
        have step: "uri_loop tb tid i res ri = uri_loop tb tid (i + 1) ?res' (ri + 1)"
          using inb nm "1.prems" wr 
          by (subst uri_loop.simps) (auto simp: less_diff_conv)
        have ih: "uri_loop tb tid (i + 1) ?res' (ri + 1) =
            (let out = expand ?h (drop (i + 1) tb) in
             if ri + 1 + length out \<le> length ?res'
             then Inr (take (ri + 1) ?res' @ out @ drop (ri + 1 + length out) ?res',
                       ri + 1 + length out)
             else Inl PanicIndex)"
        proof (cases "i < length tb - 3")
          case True
          then show ?thesis
            using "1.IH"(2) [OF inb _ True _ wr "1.prems"(1)] nm "1.prems" wr
            by (auto simp: less_diff_conv Let_def)
        next
          case False
          then show ?thesis
            using "1.IH"(3) [OF inb _ False wr "1.prems"(1)] "1.prems" wr
            by (auto simp: Let_def)
        qed
        have tk: "take (ri + 1) ?res' = take ri res @ [tb ! i]"
          using wr by (simp add: take_Suc_update)
        have dr': "\<And>k. ri < k \<Longrightarrow> drop k ?res' = drop k res"
          by simp
        show ?thesis
          unfolding step ih using ex tk dr' by (simp add: Let_def)
      next
        case False
        have "uri_loop tb tid i res ri = Inl PanicIndex"
          using inb nm "1.prems" False
          by (subst uri_loop.simps) (auto simp: less_diff_conv)
        then show ?thesis using False ex by (simp add: Let_def)
      qed
    qed
  qed
qed


lemma resolve_run:
  assumes "3 \<le> length t"
  shows "resolve t tid =
     (if length (expand (toHexString tid) t) \<le> length t + 64
      then Inr (expand (toHexString tid) t) else Inl PanicIndex)"
proof -
  let ?res = "replicate (length t + 64) (CHR 0x00)"
  have "uri_loop t tid 0 ?res 0 =
     (let out = expand (toHexString tid) (drop 0 t) in
      if 0 + length out \<le> length ?res
      then Inr (take 0 ?res @ out @ drop (0 + length out) ?res, 0 + length out)
      else Inl PanicIndex)"
    using assms by (intro uri_loop_run) simp_all
  then show ?thesis
    by (simp add: resolve_def Let_def)
qed

subsection \<open>Counting placeholders\<close>

lemma count_id_match: "count_id (''{id}'' @ rest) = 1 + count_id rest"
  by (simp add: at_id_Cons4 at_id_iff)

lemma length_expand:
  "length (expand h t) + 4 * count_id t = length t + length h * count_id t"
proof (induction h t rule: expand.induct)
  case (1 h a b c d rest)
  show ?case
  proof (cases "a = CHR 0x7b \<and> b = CHR 0x69 \<and> c = CHR 0x64 \<and> d = CHR 0x7d")
    case True
    then have "count_id (a # b # c # d # rest) = 1 + count_id rest"
      using count_id_match [of rest] by simp
    then show ?thesis using True 1(1) by (simp add: algebra_simps)
  next
    case False
    then have "length (expand h (a # b # c # d # rest)) = Suc (length (expand h (b # c # d # rest)))"
      by auto
    moreover have "count_id (a # b # c # d # rest) = count_id (b # c # d # rest)"
      using False by (simp add: at_id_Cons4)
    ultimately show ?thesis using 1(2) [OF False] by simp
  qed
qed (simp_all add: at_id_short)

lemma count_id_occurrence: "1 \<le> count_id (pre @ ''{id}'' @ post)"
proof (induction pre)
  case Nil
  then show ?case using count_id_match [of post] by simp
next
  case (Cons a pre)
  then show ?case by simp
qed

lemma expand_no_id: "count_id t = 0 \<Longrightarrow> expand h t = t"
proof (induction t)
  case Nil
  then show ?case by simp
next
  case (Cons a t)
  then have "\<not> at_id (a # t)" "count_id t = 0"
    by (simp_all split: if_splits)
  then show ?case using Cons.IH by (simp add: expand_nomatch)
qed

lemma expand_once:
  "count_id (pre @ ''{id}'' @ post) = 1 \<Longrightarrow> expand h (pre @ ''{id}'' @ post) = pre @ h @ post"
proof (induction pre)
  case Nil
  then have "count_id post = 0" using count_id_match [of post] by simp
  then show ?case by (simp add: expand_no_id)
next
  case (Cons a pre)
  have occ: "1 \<le> count_id (pre @ ''{id}'' @ post)"
    by (rule count_id_occurrence)
  have split: "count_id ((a # pre) @ ''{id}'' @ post) =
      (if at_id (a # pre @ ''{id}'' @ post) then 1 else 0) + count_id (pre @ ''{id}'' @ post)"
    by simp
  have nm: "\<not> at_id (a # pre @ ''{id}'' @ post)"
    using Cons.prems occ unfolding split by (auto split: if_splits)
  then have "count_id (pre @ ''{id}'' @ post) = 1"
    using Cons.prems unfolding split by simp
  then have "expand h (pre @ ''{id}'' @ post) = pre @ h @ post"
    by (rule Cons.IH)
  then show ?case
    using expand_nomatch [OF nm, of h] by simp
qed

lemma count_id_split: "1 \<le> count_id t \<Longrightarrow> \<exists>pre post. t = pre @ ''{id}'' @ post"
proof (induction t)
  case Nil
  then show ?case by simp
next
  case (Cons a t)
  show ?case
  proof (cases "at_id (a # t)")
    case True
    then obtain rest where "a # t = ''{id}'' @ rest"
      unfolding at_id_iff by blast
    then have "a # t = [] @ ''{id}'' @ rest"
      by simp
    then show ?thesis by blast
  next
    case False
    then have "1 \<le> count_id t" using Cons.prems by simp
    then obtain pre post where "t = pre @ ''{id}'' @ post"
      using Cons.IH by blast
    then have "a # t = (a # pre) @ ''{id}'' @ post" by simp
    then show ?thesis by blast
  qed
qed

lemma length_ge4: "1 \<le> count_id t \<Longrightarrow> 4 \<le> length t"
  using count_id_split by fastforce


subsection \<open>The claims about the resolver\<close>

lemma length_toHexString: "length (toHexString v) = 64"
  by (simp add: toHexString_hex_nat length_hex_nat)

lemma set_toHexString: "set (toHexString v) \<subseteq> set ''0123456789abcdef''"
  using set_hex_nat [of 64 "unat v"] by (simp add: toHexString_hex_nat HEX_SYMBOLS_def)

lemma hexval_toHexString: "hexval (toHexString v) = unat v"
proof -
  have "unat v < 2 ^ 256"
    using unsigned_less [of v, where ?'a = nat] by simp
  then have "unat v < 16 ^ 64"
    by simp
  then show ?thesis
    by (simp add: toHexString_hex_nat hexval_hex_nat)
qed

lemma resolve_example:
  "resolve ''https://x/{id}.json'' 1 =
     Inr ''https://x/0000000000000000000000000000000000000000000000000000000000000001.json''"
  by code_simp

text \<open>
  Claim C7. The resolver is a function of the template and the token id alone. For every
  template that contains the placeholder \<^verbatim>\<open>{id}\<close> exactly once, the template splits
  into the text before and after the placeholder, and the resolver returns the text
  before, the token id as 64 lowercase hexadecimal digits padded with zeros on the left,
  and the text after, every other character copied as it is; \<^verbatim>\<open>uri\<close> returns this
  same string on every state with this base URI in which the token is active. The output
  has the length of the template minus 4 plus 64. The 64 characters are symbols of
  \<^verbatim>\<open>0123456789abcdef\<close> and denote the token id. The example of the specification
  evaluates as stated.
\<close>

theorem uri_resolves_single_placeholder:
  assumes "count_id t = 1"
  shows "\<exists>pre post. t = pre @ ''{id}'' @ post
           \<and> resolve t tokenId = Inr (pre @ toHexString tokenId @ post)
           \<and> (\<forall>s. baseURI s = t \<and> isActive (tokenInfo s tokenId)
                  \<longrightarrow> uri s tokenId = Inr (pre @ toHexString tokenId @ post))
           \<and> length (pre @ toHexString tokenId @ post) = length t - 4 + 64
           \<and> length (toHexString tokenId) = 64
           \<and> set (toHexString tokenId) \<subseteq> set ''0123456789abcdef''
           \<and> hexval (toHexString tokenId) = unat tokenId
           \<and> resolve ''https://x/{id}.json'' 1 =
               Inr ''https://x/0000000000000000000000000000000000000000000000000000000000000001.json''"
proof -
  let ?h = "toHexString tokenId"
  from assms obtain pre post where t: "t = pre @ ''{id}'' @ post"
    using count_id_split [of t] by auto
  have ex: "expand ?h t = pre @ ?h @ post"
    using assms unfolding t by (rule expand_once)
  have len: "length (pre @ ?h @ post) = length t - 4 + 64"
    by (simp add: t length_toHexString)
  have "3 \<le> length t" by (simp add: t)
  then have res: "resolve t tokenId = Inr (pre @ ?h @ post)"
    using ex len by (simp add: resolve_run)
  have "\<forall>s. baseURI s = t \<and> isActive (tokenInfo s tokenId) \<longrightarrow> uri s tokenId = Inr (pre @ ?h @ post)"
    using res by (simp add: uri_def)
  with t res len show ?thesis
    using length_toHexString set_toHexString hexval_toHexString resolve_example by blast
qed

text \<open>The same at the template of the example and the token id 7.\<close>

theorem uri_resolves_single_placeholder_witness:
  "count_id ''https://x/{id}.json'' = 1 \<and>
   (\<exists>pre post. ''https://x/{id}.json'' = pre @ ''{id}'' @ post
      \<and> resolve ''https://x/{id}.json'' 7 = Inr (pre @ toHexString 7 @ post)
      \<and> length (pre @ toHexString 7 @ post) = length ''https://x/{id}.json'' - 4 + 64)"
proof -
  have c: "count_id ''https://x/{id}.json'' = 1"
    by code_simp
  show ?thesis
    using c uri_resolves_single_placeholder [OF c, of 7] by blast
qed

text \<open>
  Claim C10. If the stored base URI contains the placeholder \<^verbatim>\<open>{id}\<close> two or more
  times, the expansion is longer than the buffer of \<open>length template + 64\<close> bytes, and
  \<^verbatim>\<open>uri\<close> fails for every token id: with an index panic at the write past the end
  of the buffer when the token is active, and with "Token does not exist" otherwise. It
  never returns a string.
\<close>

theorem uri_fails_on_repeated_placeholder:
  assumes "2 \<le> count_id (baseURI s)"
  shows "length (baseURI s) + 64 < length (expand (toHexString tokenId) (baseURI s))
         \<and> uri s tokenId = (if isActive (tokenInfo s tokenId) then Inl PanicIndex else Inl NotFound)
         \<and> (\<forall>str. uri s tokenId \<noteq> Inr str)"
proof -
  let ?t = "baseURI s"
  let ?h = "toHexString tokenId"
  have "length (expand ?h ?t) + 4 * count_id ?t = length ?t + 64 * count_id ?t"
    using length_expand [of ?h ?t] by (simp add: length_toHexString)
  then have long: "length ?t + 64 < length (expand ?h ?t)"
    using assms by arith
  have "4 \<le> length ?t"
    using assms by (intro length_ge4) simp
  then have "resolve ?t tokenId = Inl PanicIndex"
    using long by (simp add: resolve_run)
  then have u: "uri s tokenId = (if isActive (tokenInfo s tokenId) then Inl PanicIndex else Inl NotFound)"
    by (simp add: uri_def)
  then have "\<forall>str. uri s tokenId \<noteq> Inr str"
    by simp
  with long u show ?thesis by blast
qed

text \<open>A base URI with two placeholders, at an active and at an inactive token id.\<close>

theorem uri_fails_on_repeated_placeholder_witness:
  "2 \<le> count_id (baseURI ((constructor 1 no_funds)\<lparr>baseURI := ''{id}/{id}''\<rparr>)) \<and>
   uri ((constructor 1 no_funds)\<lparr>baseURI := ''{id}/{id}''\<rparr>) 1 = Inl PanicIndex \<and>
   uri ((constructor 1 no_funds)\<lparr>baseURI := ''{id}/{id}''\<rparr>) 4 = Inl NotFound"
proof -
  let ?s = "(constructor 1 no_funds)\<lparr>baseURI := ''{id}/{id}''\<rparr>"
  have c: "2 \<le> count_id (baseURI ?s)"
    by (simp add: at_id_def)
  have a1: "isActive (tokenInfo ?s 1)" and a4: "\<not> isActive (tokenInfo ?s 4)"
    by (simp_all add: constructor_def createToken_internal_def empty_TokenInfo_def)
  show ?thesis
    using c a1 a4 uri_fails_on_repeated_placeholder [OF c, of 1]
      uri_fails_on_repeated_placeholder [OF c, of 4] by simp
qed

section \<open>Properties of the token ledger\<close>

subsection \<open>Checked arithmetic and sums of balances\<close>

lemma checked_add_Inr:
  "checked_add a b = Inr c \<longleftrightarrow> unat a + unat b < 2 ^ 256 \<and> c = a + b"
  by (auto simp: checked_add_def)

lemma checked_add_Inl:
  "checked_add a b = Inl err \<longleftrightarrow> \<not> unat a + unat b < 2 ^ 256 \<and> err = PanicArithmetic"
  by (auto simp: checked_add_def)

lemma unat_add_no_overflow:
  fixes a b :: u256
  shows "unat a + unat b < 2 ^ 256 \<Longrightarrow> unat (a + b) = unat a + unat b"
  by (simp add: unat_add_lem [THEN iffD1])

lemma unat_sub_le:
  fixes a b :: u256
  shows "b \<le> a \<Longrightarrow> unat (a - b) = unat a - unat b"
  by (simp add: unat_sub)

lemma checked_sub_Inr: "checked_sub a b = Inr c \<longleftrightarrow> b \<le> a \<and> c = a - b"
  by (auto simp: checked_sub_def)

lemma checked_sub_Inl: "checked_sub a b = Inl err \<longleftrightarrow> \<not> b \<le> a \<and> err = PanicArithmetic"
  by (auto simp: checked_sub_def)

lemma sum_fun_upd:
  fixes f :: "'a::finite \<Rightarrow> nat"
  shows "(\<Sum>a \<in> UNIV. (f(x := v)) a) + f x = (\<Sum>a \<in> UNIV. f a) + v"
proof -
  have 1: "(\<Sum>a \<in> UNIV. (f(x := v)) a) = v + (\<Sum>a \<in> UNIV - {x}. (f(x := v)) a)"
    using sum.remove [of UNIV x "f(x := v)"] by simp
  have 2: "(\<Sum>a \<in> UNIV. f a) = f x + (\<Sum>a \<in> UNIV - {x}. f a)"
    using sum.remove [of UNIV x f] by simp
  have 3: "(\<Sum>a \<in> UNIV - {x}. (f(x := v)) a) = (\<Sum>a \<in> UNIV - {x}. f a)"
    by (rule sum.cong) auto
  show ?thesis using 1 2 3 by simp
qed

lemma held_upd_same:
  "held (bal(i := (bal i)(a := w))) i + unat (bal i a) = held bal i + unat w"
proof -
  have "held (bal(i := (bal i)(a := w))) i = (\<Sum>x \<in> UNIV. ((\<lambda>x. unat (bal i x))(a := unat w)) x)"
    unfolding held_def by (rule sum.cong) auto
  then show ?thesis
    using sum_fun_upd [of "\<lambda>x. unat (bal i x)" a "unat w"] by (simp add: held_def)
qed

lemma held_upd_other: "j \<noteq> i \<Longrightarrow> held (bal(i := g)) j = held bal j"
  by (simp add: held_def)

lemma held_member: "unat (bal i a) \<le> held bal i"
proof -
  have "(\<Sum>x \<in> {a}. unat (bal i x)) \<le> (\<Sum>x \<in> UNIV. unat (bal i x))"
    by (rule sum_mono2) auto
  then show ?thesis by (simp add: held_def)
qed

lemma held_two: "a \<noteq> b \<Longrightarrow> unat (bal i a) + unat (bal i b) \<le> held bal i"
proof -
  assume "a \<noteq> b"
  then have "(\<Sum>x \<in> {a, b}. unat (bal i x)) = unat (bal i a) + unat (bal i b)"
    by simp
  moreover have "(\<Sum>x \<in> {a, b}. unat (bal i x)) \<le> (\<Sum>x \<in> UNIV. unat (bal i x))"
    by (rule sum_mono2) auto
  ultimately show ?thesis by (simp add: held_def)
qed


lemma carried_Nil: "carried i [] = 0"
  by (simp add: carried_def)

lemma carried_Cons: "carried i ((j, v) # ps) = (if j = i then unat v else 0) + carried i ps"
  by (simp add: carried_def)

subsection \<open>The balance update of the base contract\<close>

lemma update_one_held:
  assumes "update_one src dst j v bal = Inr bal'"
  shows "held bal' i + (if src \<noteq> 0 \<and> j = i then unat v else 0) =
         held bal i + (if dst \<noteq> 0 \<and> j = i then unat v else 0)"
proof -
  define debited where
    "debited = (if src \<noteq> 0 then bal(j := (bal j)(src := bal j src - v)) else bal)"
  have ok: "src \<noteq> 0 \<Longrightarrow> v \<le> bal j src"
    using assms by (auto simp: update_one_def split: if_splits)
  have d: "held debited i + (if src \<noteq> 0 \<and> j = i then unat v else 0) = held bal i"
  proof (cases "src \<noteq> 0")
    case True
    show ?thesis
    proof (cases "j = i")
      case True
      have "held (bal(j := (bal j)(src := bal j src - v))) j + unat (bal j src) =
            held bal j + unat (bal j src - v)"
        by (rule held_upd_same)
      moreover have "unat (bal j src - v) = unat (bal j src) - unat v"
        using ok \<open>src \<noteq> 0\<close> by (simp add: unat_sub_le)
      moreover have "unat v \<le> unat (bal j src)"
        using ok \<open>src \<noteq> 0\<close> by (simp add: word_le_nat_alt)
      ultimately show ?thesis
        using True \<open>src \<noteq> 0\<close> by (simp add: debited_def)
    next
      case False
      then show ?thesis using True by (simp add: debited_def held_upd_other)
    qed
  next
    case False
    then show ?thesis by (simp add: debited_def)
  qed
  show ?thesis
  proof (cases "dst \<noteq> 0")
    case True
    then obtain credited where c: "checked_add (debited j dst) v = Inr credited"
      and b: "bal' = debited(j := (debited j)(dst := credited))"
      using assms unfolding update_one_def debited_def [symmetric]
      by (auto simp: Let_def split: if_splits sum.splits)
    have u: "unat credited = unat (debited j dst) + unat v"
      using c by (auto simp: checked_add_Inr unat_add_no_overflow)
    show ?thesis
    proof (cases "j = i")
      case True
      have "held bal' j + unat (debited j dst) = held debited j + unat credited"
        unfolding b by (rule held_upd_same)
      then show ?thesis using u d True \<open>dst \<noteq> 0\<close> by simp
    next
      case False
      then show ?thesis using d \<open>dst \<noteq> 0\<close> by (simp add: b held_upd_other)
    qed
  next
    case False
    then have "bal' = debited"
      using assms unfolding update_one_def debited_def [symmetric]
      by (auto simp: Let_def split: if_splits)
    then show ?thesis using d False by simp
  qed
qed

lemma update_one_others:
  assumes "update_one src dst j v bal = Inr bal'" and "a \<noteq> dst \<or> dst = 0"
  shows "bal' i a \<le> bal i a"
proof -
  have "\<And>x y :: u256. y \<le> x \<Longrightarrow> x - y \<le> x"
    by (simp add: word_sub_le)
  then show ?thesis
    using assms
    by (auto simp: update_one_def Let_def split: if_splits sum.splits)
qed

lemma update_loop_held:
  "update_loop src dst ps bal = Inr bal' \<Longrightarrow>
   held bal' i + (if src \<noteq> 0 then carried i ps else 0) =
   held bal i + (if dst \<noteq> 0 then carried i ps else 0)"
proof (induction ps arbitrary: bal)
  case Nil
  then show ?case by (simp add: carried_Nil)
next
  case (Cons p ps)
  obtain j v where p: "p = (j, v)" by (cases p)
  from Cons.prems obtain mid where one: "update_one src dst j v bal = Inr mid"
    and rest: "update_loop src dst ps mid = Inr bal'"
    by (auto simp: p split: sum.splits)
  from update_one_held [OF one, of i] Cons.IH [OF rest]
  show ?case by (auto simp: p carried_Cons split: if_splits)
qed

lemma update_loop_others:
  "update_loop src dst ps bal = Inr bal' \<Longrightarrow> a \<noteq> dst \<or> dst = 0 \<Longrightarrow> bal' i a \<le> bal i a"
proof (induction ps arbitrary: bal)
  case Nil
  then show ?case by simp
next
  case (Cons p ps)
  obtain j v where p: "p = (j, v)" by (cases p)
  from Cons.prems obtain mid where one: "update_one src dst j v bal = Inr mid"
    and rest: "update_loop src dst ps mid = Inr bal'"
    by (auto simp: p split: sum.splits)
  have "bal' i a \<le> mid i a" using Cons.IH [OF rest Cons.prems(2)] .
  also have "mid i a \<le> bal i a" using update_one_others [OF one Cons.prems(2)] .
  finally show ?case .
qed

lemma checked_update:
  assumes "updateWithAcceptanceCheck e operator src dst ids vals bal = Inr bal'"
  shows "length ids = length vals"
    and "update_loop src dst (zip ids vals) bal = Inr bal'"
    and "dst \<noteq> 0 \<Longrightarrow> dst \<noteq> contract_address e"
  using assms
  by (auto simp: updateWithAcceptanceCheck_def update_base_def accepts_def
           split: sum.splits if_splits)


subsection \<open>The invariant is kept by every operation\<close>

lemma set_supply_simps:
  "owner (set_supply s j c) = owner s"
  "balances (set_supply s j c) = balances s"
  "operatorApprovals (set_supply s j c) = operatorApprovals s"
  "baseURI (set_supply s j c) = baseURI s"
  "usdc (set_supply s j c) = usdc s"
  "currentSupply (tokenInfo (set_supply s j c) i) = (if i = j then c else currentSupply (tokenInfo s i))"
  "maxSupply (tokenInfo (set_supply s j c) i) = maxSupply (tokenInfo s i)"
  "isActive (tokenInfo (set_supply s j c) i) = isActive (tokenInfo s i)"
  by (simp_all add: set_supply_def)

lemma ledger_inv_after:
  assumes inv: "ledger_inv e s i"
    and upd: "update_loop src dst ps (balances s) = Inr bal'"
    and dst_ok: "dst \<noteq> 0 \<Longrightarrow> dst \<noteq> contract_address e"
    and sup: "unat (currentSupply (tokenInfo s' i)) + (if src \<noteq> 0 then carried i ps else 0) =
              unat (currentSupply (tokenInfo s i)) + (if dst \<noteq> 0 then carried i ps else 0)"
    and mx: "currentSupply (tokenInfo s' i) \<le> maxSupply (tokenInfo s' i)"
    and act: "isActive (tokenInfo s' i) \<or> currentSupply (tokenInfo s' i) = 0"
    and bal: "balances s' = bal'"
  shows "ledger_inv e s' i"
proof -
  have h: "held bal' i + (if src \<noteq> 0 then carried i ps else 0) =
           held (balances s) i + (if dst \<noteq> 0 then carried i ps else 0)"
    using upd by (rule update_loop_held)
  have "held (balances s) i = unat (currentSupply (tokenInfo s i))"
    using inv by (simp add: ledger_inv_def total_held_def)
  then have 1: "total_held s' i = unat (currentSupply (tokenInfo s' i))"
    using h sup by (simp add: total_held_def bal split: if_splits)
  have "bal' i 0 \<le> balances s i 0"
    using upd by (rule update_loop_others) auto
  then have 2: "balances s' i 0 = 0"
    using inv by (simp add: ledger_inv_def bal)
  have "bal' i (contract_address e) \<le> balances s i (contract_address e)"
    using upd dst_ok by (intro update_loop_others) auto
  then have 3: "balances s' i (contract_address e) = 0"
    using inv by (simp add: ledger_inv_def bal)
  show ?thesis
    using 1 2 3 mx act by (simp add: ledger_inv_def)
qed

lemma ledger_inv_frame:
  assumes "ledger_inv e s i"
    and "balances s' = balances s"
    and "currentSupply (tokenInfo s' i) = currentSupply (tokenInfo s i)"
    and "maxSupply (tokenInfo s' i) = maxSupply (tokenInfo s i)"
    and "isActive (tokenInfo s' i) = isActive (tokenInfo s i)"
  shows "ledger_inv e s' i"
  using assms by (simp add: ledger_inv_def total_held_def)

lemma mintBatch_loop_effect:
  "mintBatch_loop ps s = Inr s' \<Longrightarrow>
   balances s' = balances s \<and> owner s' = owner s \<and> usdc s' = usdc s \<and>
   operatorApprovals s' = operatorApprovals s \<and> baseURI s' = baseURI s \<and>
   unat (currentSupply (tokenInfo s' i)) = unat (currentSupply (tokenInfo s i)) + carried i ps \<and>
   maxSupply (tokenInfo s' i) = maxSupply (tokenInfo s i) \<and>
   isActive (tokenInfo s' i) = isActive (tokenInfo s i) \<and>
   (0 < carried i ps \<longrightarrow> isActive (tokenInfo s i)) \<and>
   (currentSupply (tokenInfo s i) \<le> maxSupply (tokenInfo s i) \<longrightarrow>
    currentSupply (tokenInfo s' i) \<le> maxSupply (tokenInfo s' i))"
proof (induction ps arbitrary: s)
  case Nil
  then show ?case by (simp add: carried_Nil)
next
  case (Cons p ps)
  obtain j a where p: "p = (j, a)" by (cases p)
  let ?c = "currentSupply (tokenInfo s j) + a"
  from Cons.prems have fits: "unat (currentSupply (tokenInfo s j)) + unat a < 2 ^ 256"
    and le: "?c \<le> maxSupply (tokenInfo s j)"
    and active: "isActive (tokenInfo s j)"
    and rest: "mintBatch_loop ps (set_supply s j ?c) = Inr s'"
    by (auto simp: p checked_add_def split: if_splits)
  have u: "unat ?c = unat (currentSupply (tokenInfo s j)) + unat a"
    using fits by (rule unat_add_no_overflow)
  from Cons.IH [OF rest] u le active
  show ?case
    by (auto simp: p carried_Cons set_supply_simps split: if_splits)
qed

lemma createToken_inv:
  assumes "ledger_inv e s i" and "createToken s caller j nm descr mx = Inr s'"
  shows "ledger_inv e s' i"
  using assms
  by (auto simp: createToken_def createToken_internal_def ledger_inv_def total_held_def
           split: if_splits)

lemma mint_inv:
  assumes inv: "ledger_inv e s i" and run: "mint e s caller dst j amount = Inr s'"
  shows "ledger_inv e s' i"
proof -
  let ?c = "currentSupply (tokenInfo s j) + amount"
  from run obtain bal where
        fits: "unat (currentSupply (tokenInfo s j)) + unat amount < 2 ^ 256"
    and le: "?c \<le> maxSupply (tokenInfo s j)"
    and active: "isActive (tokenInfo s j)"
    and dst: "dst \<noteq> 0"
    and upd: "updateWithAcceptanceCheck e caller 0 dst [j] [amount] (balances s) = Inr bal"
    and s': "s' = (set_supply s j ?c)\<lparr>balances := bal\<rparr>"
    by (auto simp: mint_def mint_base_def checked_add_def Let_def set_supply_simps
             split: if_splits sum.splits)
  have u: "unat ?c = unat (currentSupply (tokenInfo s j)) + unat amount"
    using fits by (rule unat_add_no_overflow)
  have loop: "update_loop 0 dst [(j, amount)] (balances s) = Inr bal"
    using checked_update(2) [OF upd] by simp
  show ?thesis
  proof (rule ledger_inv_after [OF inv loop])
    show "dst \<noteq> contract_address e"
      using checked_update(3) [OF upd dst] .
    show "unat (currentSupply (tokenInfo s' i)) + (if (0::address) \<noteq> 0 then carried i [(j, amount)] else 0) =
          unat (currentSupply (tokenInfo s i)) + (if dst \<noteq> 0 then carried i [(j, amount)] else 0)"
      using u dst by (auto simp: s' set_supply_simps carried_Cons carried_Nil)
    show "currentSupply (tokenInfo s' i) \<le> maxSupply (tokenInfo s' i)"
      using inv le by (auto simp: s' set_supply_simps ledger_inv_def)
    show "isActive (tokenInfo s' i) \<or> currentSupply (tokenInfo s' i) = 0"
      using inv active by (auto simp: s' set_supply_simps ledger_inv_def)
    show "balances s' = bal"
      by (simp add: s')
  qed
qed

lemma mintBatch_inv:
  assumes inv: "ledger_inv e s i" and run: "mintBatch e s caller dst ids amounts = Inr s'"
  shows "ledger_inv e s' i"
proof -
  from run obtain s1 bal where
        loop1: "mintBatch_loop (zip ids amounts) s = Inr s1"
    and dst: "dst \<noteq> 0"
    and upd: "updateWithAcceptanceCheck e caller 0 dst ids amounts (balances s1) = Inr bal"
    and s': "s' = s1\<lparr>balances := bal\<rparr>"
    by (auto simp: mintBatch_def mintBatch_base_def split: if_splits sum.splits)
  note eff = mintBatch_loop_effect [OF loop1, of i]
  have loop: "update_loop 0 dst (zip ids amounts) (balances s) = Inr bal"
    using checked_update(2) [OF upd] eff by simp
  show ?thesis
  proof (rule ledger_inv_after [OF inv loop])
    show "dst \<noteq> contract_address e"
      using checked_update(3) [OF upd dst] .
    show "unat (currentSupply (tokenInfo s' i)) +
            (if (0::address) \<noteq> 0 then carried i (zip ids amounts) else 0) =
          unat (currentSupply (tokenInfo s i)) + (if dst \<noteq> 0 then carried i (zip ids amounts) else 0)"
      using eff dst by (simp add: s')
    show "currentSupply (tokenInfo s' i) \<le> maxSupply (tokenInfo s' i)"
      using inv eff by (auto simp: s' ledger_inv_def)
    show "isActive (tokenInfo s' i) \<or> currentSupply (tokenInfo s' i) = 0"
    proof (cases "carried i (zip ids amounts) = 0")
      case True
      then have "currentSupply (tokenInfo s' i) = currentSupply (tokenInfo s i)"
        using eff by (simp add: s' word_unat_eq_iff)
      then show ?thesis using inv eff by (auto simp: s' ledger_inv_def)
    next
      case False
      then show ?thesis using eff by (simp add: s')
    qed
    show "balances s' = bal"
      by (simp add: s')
  qed
qed

lemma burn_steps_inv:
  assumes inv: "ledger_inv e s i"
    and sub: "checked_sub (currentSupply (tokenInfo s j)) amount = Inr c"
    and brn: "burn_base e caller src j amount (balances (set_supply s j c)) = Inr bal"
    and s': "balances s' = bal" "tokenInfo s' = tokenInfo (set_supply s j c)"
  shows "ledger_inv e s' i"
proof -
  from sub have le: "amount \<le> currentSupply (tokenInfo s j)"
    and c: "c = currentSupply (tokenInfo s j) - amount"
    by (simp_all add: checked_sub_Inr)
  have u: "unat c + unat amount = unat (currentSupply (tokenInfo s j))"
    using le by (simp add: c unat_sub_le word_le_nat_alt)
  from brn have src: "src \<noteq> 0"
    and upd: "updateWithAcceptanceCheck e caller src 0 [j] [amount] (balances s) = Inr bal"
    by (auto simp: burn_base_def set_supply_simps split: if_splits)
  have loop: "update_loop src 0 [(j, amount)] (balances s) = Inr bal"
    using checked_update(2) [OF upd] by simp
  have cle: "c \<le> currentSupply (tokenInfo s j)"
    using le by (simp add: c word_sub_le)
  show ?thesis
  proof (rule ledger_inv_after [OF inv loop])
    show "(0::address) \<noteq> 0 \<Longrightarrow> (0::address) \<noteq> contract_address e"
      by simp
    show "unat (currentSupply (tokenInfo s' i)) + (if src \<noteq> 0 then carried i [(j, amount)] else 0) =
          unat (currentSupply (tokenInfo s i)) + (if (0::address) \<noteq> 0 then carried i [(j, amount)] else 0)"
      using u src by (auto simp: s' set_supply_simps carried_Cons carried_Nil)
    show "currentSupply (tokenInfo s' i) \<le> maxSupply (tokenInfo s' i)"
      using inv cle by (auto simp: s' set_supply_simps ledger_inv_def)
    show "isActive (tokenInfo s' i) \<or> currentSupply (tokenInfo s' i) = 0"
      using inv cle by (auto simp: s' set_supply_simps ledger_inv_def)
    show "balances s' = bal"
      by (simp add: s')
  qed
qed

lemma burn_inv:
  assumes inv: "ledger_inv e s i" and run: "burn e s caller src j amount = Inr s'"
  shows "ledger_inv e s' i"
proof -
  from run obtain c bal where
        sub: "checked_sub (currentSupply (tokenInfo s j)) amount = Inr c"
    and brn: "burn_base e caller src j amount (balances (set_supply s j c)) = Inr bal"
    and s': "s' = (set_supply s j c)\<lparr>balances := bal\<rparr>"
    by (auto simp: burn_def Let_def split: if_splits sum.splits)
  show ?thesis
    by (rule burn_steps_inv [OF inv sub brn]) (simp_all add: s')
qed

lemma payback_inv:
  assumes inv: "ledger_inv e s i" and run: "payback e s caller src j tokenAmount usdcAmount = Inr s'"
  shows "ledger_inv e s' i"
proof -
  from run obtain c bal l where
        sub: "checked_sub (currentSupply (tokenInfo s j)) tokenAmount = Inr c"
    and brn: "burn_base e caller src j tokenAmount (balances (set_supply s j c)) = Inr bal"
    and s': "s' = (set_supply s j c)\<lparr>balances := bal, usdc := l\<rparr>"
    by (auto simp: payback_def Let_def split: if_splits sum.splits)
  show ?thesis
    by (rule burn_steps_inv [OF inv sub brn]) (simp_all add: s')
qed

lemma transfer_inv:
  assumes inv: "ledger_inv e s i" and run: "safeBatchTransferFrom e s caller src dst ids vals = Inr s'"
  shows "ledger_inv e s' i"
proof -
  from run obtain bal where src: "src \<noteq> 0" and dst: "dst \<noteq> 0"
    and upd: "updateWithAcceptanceCheck e caller src dst ids vals (balances s) = Inr bal"
    and s': "s' = s\<lparr>balances := bal\<rparr>"
    by (auto simp: safeBatchTransferFrom_def split: if_splits sum.splits)
  have loop: "update_loop src dst (zip ids vals) (balances s) = Inr bal"
    using checked_update(2) [OF upd] .
  show ?thesis
  proof (rule ledger_inv_after [OF inv loop])
    show "dst \<noteq> contract_address e"
      using checked_update(3) [OF upd dst] .
    show "unat (currentSupply (tokenInfo s' i)) + (if src \<noteq> 0 then carried i (zip ids vals) else 0) =
          unat (currentSupply (tokenInfo s i)) + (if dst \<noteq> 0 then carried i (zip ids vals) else 0)"
      using src dst by (simp add: s')
    show "currentSupply (tokenInfo s' i) \<le> maxSupply (tokenInfo s' i)"
      using inv by (simp add: s' ledger_inv_def)
    show "isActive (tokenInfo s' i) \<or> currentSupply (tokenInfo s' i) = 0"
      using inv by (simp add: s' ledger_inv_def)
    show "balances s' = bal"
      by (simp add: s')
  qed
qed

lemma ledger_inv_other_fields:
  "ledger_inv e (s\<lparr>usdc := l\<rparr>) i = ledger_inv e s i"
  "ledger_inv e (s\<lparr>owner := a\<rparr>) i = ledger_inv e s i"
  "ledger_inv e (s\<lparr>baseURI := u\<rparr>) i = ledger_inv e s i"
  "ledger_inv e (s\<lparr>operatorApprovals := ap\<rparr>) i = ledger_inv e s i"
  by (simp_all add: ledger_inv_def total_held_def)

lemma treasury_ops_inv:
  assumes inv: "ledger_inv e s i"
  shows "payDividend e s caller dst amount = Inr s' \<Longrightarrow> ledger_inv e s' i"
    and "withdrawUSDC e s caller amount = Inr s' \<Longrightarrow> ledger_inv e s' i"
    and "addUSDC e s caller amount = Inr s' \<Longrightarrow> ledger_inv e s' i"
  using inv
  by (auto simp: payDividend_def withdrawUSDC_def addUSDC_def ledger_inv_other_fields
           split: if_splits sum.splits)

lemma updateTokenInfo_inv:
  assumes "ledger_inv e s i" and "updateTokenInfo s caller j nm descr = Inr s'"
  shows "ledger_inv e s' i"
  using assms
  by (auto simp: updateTokenInfo_def ledger_inv_def total_held_def split: if_splits)

lemma admin_ops_inv:
  assumes inv: "ledger_inv e s i"
  shows "setBaseURI s caller u = Inr s' \<Longrightarrow> ledger_inv e s' i"
    and "setApprovalForAll s caller operator approved = Inr s' \<Longrightarrow> ledger_inv e s' i"
    and "transferOwnership s caller newOwner = Inr s' \<Longrightarrow> ledger_inv e s' i"
    and "renounceOwnership s caller = Inr s' \<Longrightarrow> ledger_inv e s' i"
  using inv
  by (auto simp: setBaseURI_def setApprovalForAll_def transferOwnership_def
           renounceOwnership_def ledger_inv_other_fields split: if_splits)

lemma exec_inv:
  assumes inv: "ledger_inv e s i" and run: "exec e caller oper s = Inr s'"
  shows "ledger_inv e s' i"
proof (cases oper)
  case (CreateToken j nm descr mx)
  then show ?thesis using inv run createToken_inv by simp
next
  case (Mint dst j amount)
  then show ?thesis using inv run mint_inv by simp
next
  case (MintBatch dst ids amounts)
  then show ?thesis using inv run mintBatch_inv by simp
next
  case (Burn src j amount)
  then show ?thesis using inv run burn_inv by simp
next
  case (Payback src j ta ua)
  then show ?thesis using inv run payback_inv by simp
next
  case (PayDividend dst ua)
  then show ?thesis using inv run treasury_ops_inv(1) by simp
next
  case (WithdrawUSDC amount)
  then show ?thesis using inv run treasury_ops_inv(2) by simp
next
  case (AddUSDC amount)
  then show ?thesis using inv run treasury_ops_inv(3) by simp
next
  case (UpdateTokenInfo j nm descr)
  then show ?thesis using inv run updateTokenInfo_inv by simp
next
  case (SetBaseURI u)
  then show ?thesis using inv run admin_ops_inv(1) by simp
next
  case (SafeTransferFrom src dst j v)
  then show ?thesis using inv run transfer_inv by (simp add: safeTransferFrom_def)
next
  case (SafeBatchTransferFrom src dst ids vals)
  then show ?thesis using inv run transfer_inv by simp
next
  case (SetApprovalForAll operator approved)
  then show ?thesis using inv run admin_ops_inv(2) by simp
next
  case (TransferOwnership newOwner)
  then show ?thesis using inv run admin_ops_inv(3) by simp
next
  case RenounceOwnership
  then show ?thesis using inv run admin_ops_inv(4) by simp
qed

lemma constructor_inv: "ledger_inv e (constructor deployer l) i"
  by (simp add: constructor_def createToken_internal_def empty_TokenInfo_def ledger_inv_def
      total_held_def held_def Let_def)

lemma reachable_inv: "reachable e s \<Longrightarrow> ledger_inv e s i"
proof (induction rule: reachable.induct)
  case (reach_init deployer l)
  show ?case by (rule constructor_inv)
next
  case (reach_call s caller oper)
  show ?case
  proof (cases "exec e caller oper s")
    case (Inl err)
    then show ?thesis using reach_call.IH by (simp add: call_def)
  next
    case (Inr s')
    then show ?thesis using exec_inv [OF reach_call.IH Inr] by (simp add: call_def)
  qed
next
  case (reach_usdc s l)
  then show ?case by (simp add: ledger_inv_other_fields)
qed


subsection \<open>The example states\<close>

lemma constructor_fields:
  "owner (constructor d l) = d"
  "usdc (constructor d l) = l"
  "balances (constructor d l) = (\<lambda>tokenId account. 0)"
  "isActive (tokenInfo (constructor d l) 3)"
  "currentSupply (tokenInfo (constructor d l) 3) = 0"
  "maxSupply (tokenInfo (constructor d l) 3) = 50"
  by (simp_all add: constructor_def createToken_internal_def Let_def)

lemmas eval_defs =
  checked_add_def checked_sub_def mint_base_def burn_base_def mintBatch_base_def
  updateWithAcceptanceCheck_def update_base_def update_one_def accepts_def example_env_def
  Let_def set_supply_def call_def balanceOf_def

lemma minted_state_eq:
  "minted_state l =
     (constructor 1 l)
       \<lparr>tokenInfo := (tokenInfo (constructor 1 l))
                       (3 := tokenInfo (constructor 1 l) 3\<lparr>currentSupply := 10\<rparr>),
        balances := (\<lambda>tokenId account. 0)(3 := (\<lambda>account. 0)(5 := 10))\<rparr>"
  by (simp add: minted_state_def mint_def constructor_fields eval_defs)

lemma minted_fields:
  "owner (minted_state l) = 1"
  "usdc (minted_state l) = l"
  "isActive (tokenInfo (minted_state l) 3)"
  "currentSupply (tokenInfo (minted_state l) 3) = 10"
  "maxSupply (tokenInfo (minted_state l) 3) = 50"
  "balances (minted_state l) 3 5 = 10"
  by (simp_all add: minted_state_eq constructor_fields)

lemma minted_reachable: "reachable example_env (minted_state l)"
  unfolding minted_state_def by (intro reachable.intros) simp

subsection \<open>The claims about the invariants\<close>

text \<open>
  Claim C4. In every reachable state, that is after any sequence of calls starting from
  the state the constructor leaves, the current supply of every token id is at least 0
  and at most the maximum supply of that token.
\<close>

theorem supply_within_bounds:
  assumes "reachable e s"
  shows "0 \<le> unat (currentSupply (tokenInfo s tokenId)) \<and>
         unat (currentSupply (tokenInfo s tokenId)) \<le> unat (maxSupply (tokenInfo s tokenId)) \<and>
         currentSupply (tokenInfo s tokenId) \<le> maxSupply (tokenInfo s tokenId)"
  using reachable_inv [OF assms, of tokenId]
  by (simp add: ledger_inv_def word_le_nat_alt)

text \<open>The state after a mint of 10 units of token 3, whose maximum supply is 50.\<close>

theorem supply_within_bounds_witness:
  "reachable example_env (minted_state no_funds) \<and>
   currentSupply (tokenInfo (minted_state no_funds) 3) = 10 \<and>
   maxSupply (tokenInfo (minted_state no_funds) 3) = 50 \<and>
   currentSupply (tokenInfo (minted_state no_funds) 3) \<le> maxSupply (tokenInfo (minted_state no_funds) 3)"
  using minted_reachable [of no_funds] supply_within_bounds [OF minted_reachable, of no_funds 3]
  by (simp add: minted_fields)

text \<open>
  Claim C5. In every reachable state the holder balances of a token id, summed over all
  addresses, equal the current supply of that token; and whatever call is made next
  (mint, batch mint, burn, payback, transfer or any other operation, by any caller,
  completed or aborted), the equality holds again after it.
\<close>

theorem balances_sum_to_supply:
  assumes "reachable e s"
  shows "total_held s tokenId = unat (currentSupply (tokenInfo s tokenId)) \<and>
         (\<forall>caller oper.
            total_held (fst (call e caller oper s)) tokenId =
            unat (currentSupply (tokenInfo (fst (call e caller oper s)) tokenId)))"
proof -
  have inv: "ledger_inv e s tokenId"
    using assms by (rule reachable_inv)
  have "ledger_inv e (fst (call e caller oper s)) tokenId" for caller oper
  proof (cases "exec e caller oper s")
    case (Inl err)
    then show ?thesis using inv by (simp add: call_def)
  next
    case (Inr s')
    then show ?thesis using exec_inv [OF inv Inr] by (simp add: call_def)
  qed
  then show ?thesis
    using inv by (simp add: ledger_inv_def)
qed

text \<open>The state after the mint, and the state after the holder then burns 4 units.\<close>

theorem balances_sum_to_supply_witness:
  "reachable example_env (minted_state rich_ledger) \<and>
   balances (minted_state rich_ledger) 3 5 = 10 \<and>
   total_held (minted_state rich_ledger) 3 = 10 \<and>
   total_held (fst (call example_env 5 (Burn 5 3 4) (minted_state rich_ledger))) 3 = 6"
proof -
  have b: "currentSupply (tokenInfo (fst (call example_env 5 (Burn 5 3 4) (minted_state rich_ledger))) 3) = 6"
    by (simp add: burn_def minted_fields eval_defs)
  show ?thesis
    using b minted_reachable [of rich_ledger]
      balances_sum_to_supply [OF minted_reachable, of rich_ledger 3]
    by (simp add: minted_fields)
qed

section \<open>Properties of the operations\<close>

subsection \<open>Burning\<close>

lemma burn_base_eval:
  "burn_base e caller src j v bal =
     (if src = 0 then Inl InvalidArgument
      else if bal j src < v then Inl InsufficientBalance
      else Inr (bal(j := (bal j)(src := bal j src - v))))"
  by (simp add: burn_base_def updateWithAcceptanceCheck_def update_base_def update_one_def Let_def)

lemma call_aborts: "exec e caller oper s = Inl err \<Longrightarrow> call e caller oper s = (s, Some err)"
  by (simp add: call_def)

text \<open>
  Claim C3, as amended. \<^verbatim>\<open>burn\<close> fails with \<open>Unauthorized\<close> unless the caller is
  \<open>from\<close> or the owner. For an authorised caller the supply is decremented first, with
  a checked subtraction: the call fails with an arithmetic panic when the amount exceeds
  the current supply of the token; otherwise with \<open>InvalidArgument\<close> when \<open>from\<close> is
  the zero address; otherwise with \<open>InsufficientBalance\<close> when the balance of \<open>from\<close>
  is less than the amount (the check of the base contract, made after the decrement of
  the supply); otherwise it succeeds and lowers the supply and the balance by the
  amount. A failing call aborts, so the current supply and all balances are as before.
\<close>

theorem burn_outcome:
  "burn e s caller src tokenId amount =
     (if \<not> (caller = src \<or> caller = owner s) then Inl Unauthorized
      else if \<not> amount \<le> currentSupply (tokenInfo s tokenId) then Inl PanicArithmetic
      else if src = 0 then Inl InvalidArgument
      else if balances s tokenId src < amount then Inl InsufficientBalance
      else Inr ((set_supply s tokenId (currentSupply (tokenInfo s tokenId) - amount))
                  \<lparr>balances := (balances s)
                     (tokenId := (balances s tokenId)(src := balances s tokenId src - amount))\<rparr>))
   \<and> (case burn e s caller src tokenId amount of
         Inl err \<Rightarrow> call e caller (Burn src tokenId amount) s = (s, Some err)
       | Inr s' \<Rightarrow> call e caller (Burn src tokenId amount) s = (s', None))"
proof -
  have 1: "burn e s caller src tokenId amount =
     (if \<not> (caller = src \<or> caller = owner s) then Inl Unauthorized
      else if \<not> amount \<le> currentSupply (tokenInfo s tokenId) then Inl PanicArithmetic
      else if src = 0 then Inl InvalidArgument
      else if balances s tokenId src < amount then Inl InsufficientBalance
      else Inr ((set_supply s tokenId (currentSupply (tokenInfo s tokenId) - amount))
                  \<lparr>balances := (balances s)
                     (tokenId := (balances s tokenId)(src := balances s tokenId src - amount))\<rparr>))"
    by (simp add: burn_def checked_sub_def burn_base_eval Let_def set_supply_simps)
  have 2: "(case burn e s caller src tokenId amount of
         Inl err \<Rightarrow> call e caller (Burn src tokenId amount) s = (s, Some err)
       | Inr s' \<Rightarrow> call e caller (Burn src tokenId amount) s = (s', None))"
    by (simp add: call_def split: sum.splits)
  from 1 2 show ?thesis by (rule conjI)
qed

text \<open>
  Claim C3 as stated fails right after deployment: account 5 holds none of token 1 and
  burns one unit of its own; the call ends in an arithmetic panic from the supply
  decrement, not in \<open>InsufficientBalance\<close>.
\<close>

theorem burn_insufficient_counterexample:
  "(5::address) = 5 \<and> balances (constructor 1 no_funds) 1 5 < 1 \<and>
   burn example_env (constructor 1 no_funds) 5 5 1 1 = Inl PanicArithmetic \<and>
   burn example_env (constructor 1 no_funds) 5 5 1 1 \<noteq> Inl InsufficientBalance"
  by (simp add: burn_def checked_sub_def constructor_def createToken_internal_def Let_def)


subsection \<open>Deposits into the treasury\<close>

lemma usdc_move_ok:
  assumes "dst \<noteq> 0" and "amount \<le> usdc_balance l src" and "src \<noteq> dst"
    and "unat (usdc_balance l dst) + unat amount < 2 ^ 256"
  shows "usdc_move l src dst amount =
     Inr (l\<lparr>usdc_balance := (usdc_balance l)
            (src := usdc_balance l src - amount, dst := usdc_balance l dst + amount)\<rparr>)"
  using assms
  by (simp add: usdc_move_def checked_add_def Let_def not_less [symmetric])

text \<open>
  Claim C1, as amended. \<^verbatim>\<open>addUSDC\<close> is gated by the owner: a call by any other
  account fails with \<open>Unauthorized\<close>, whatever the amount, the balance and the
  allowance. A call by the owner with a positive amount, a sufficient stable-coin
  balance and allowance (and a contract balance that does not overflow) succeeds and
  moves the amount from the owner to the contract, leaving the token ledger alone.
\<close>

theorem addUSDC_owner_gated:
  "(caller \<noteq> owner s \<longrightarrow> addUSDC e s caller amount = Inl Unauthorized) \<and>
   (caller = owner s \<and> 0 < amount \<and> amount \<le> usdc_balance (usdc s) caller \<and>
    amount \<le> usdc_allowance (usdc s) caller (contract_address e) \<and>
    contract_address e \<noteq> 0 \<and> caller \<noteq> contract_address e \<and>
    unat (usdc_balance (usdc s) (contract_address e)) + unat amount < 2 ^ 256
    \<longrightarrow> (\<exists>s'. addUSDC e s caller amount = Inr s' \<and>
              usdc_balance (usdc s') (contract_address e) =
                usdc_balance (usdc s) (contract_address e) + amount \<and>
              usdc_balance (usdc s') caller = usdc_balance (usdc s) caller - amount \<and>
              tokenInfo s' = tokenInfo s \<and> balances s' = balances s \<and> owner s' = owner s))"
proof (intro conjI impI)
  assume "caller \<noteq> owner s"
  then show "addUSDC e s caller amount = Inl Unauthorized"
    by (simp add: addUSDC_def)
next
  assume h: "caller = owner s \<and> 0 < amount \<and> amount \<le> usdc_balance (usdc s) caller \<and>
    amount \<le> usdc_allowance (usdc s) caller (contract_address e) \<and>
    contract_address e \<noteq> 0 \<and> caller \<noteq> contract_address e \<and>
    unat (usdc_balance (usdc s) (contract_address e)) + unat amount < 2 ^ 256"
  then have c: "caller = owner s" and pos: "0 < amount"
    and bal: "amount \<le> usdc_balance (usdc s) caller"
    and alw: "amount \<le> usdc_allowance (usdc s) caller (contract_address e)"
    and nz: "contract_address e \<noteq> 0" and ne: "caller \<noteq> contract_address e"
    and fits: "unat (usdc_balance (usdc s) (contract_address e)) + unat amount < 2 ^ 256"
    by blast+
  have mv: "usdc_move (usdc s) caller (contract_address e) amount =
     Inr ((usdc s)\<lparr>usdc_balance := (usdc_balance (usdc s))
            (caller := usdc_balance (usdc s) caller - amount,
             contract_address e := usdc_balance (usdc s) (contract_address e) + amount)\<rparr>)"
    using nz bal ne fits by (rule usdc_move_ok)
  have "addUSDC e s caller amount =
     Inr (s\<lparr>usdc := (usdc s)\<lparr>usdc_balance := (usdc_balance (usdc s))
            (caller := usdc_balance (usdc s) caller - amount,
             contract_address e := usdc_balance (usdc s) (contract_address e) + amount),
           usdc_allowance := (usdc_allowance (usdc s))
            (caller := (usdc_allowance (usdc s) caller)
               (contract_address e :=
                  usdc_allowance (usdc s) caller (contract_address e) - amount))\<rparr>\<rparr>)"
    using c pos bal alw mv by (simp add: addUSDC_def usdc_transferFrom_def not_less [symmetric])
  then show "\<exists>s'. addUSDC e s caller amount = Inr s' \<and>
              usdc_balance (usdc s') (contract_address e) =
                usdc_balance (usdc s) (contract_address e) + amount \<and>
              usdc_balance (usdc s') caller = usdc_balance (usdc s) caller - amount \<and>
              tokenInfo s' = tokenInfo s \<and> balances s' = balances s \<and> owner s' = owner s"
    using ne by simp
qed

lemma example_facts:
  "owner (constructor 1 rich_ledger) = 1"
  "usdc_balance (usdc (constructor 1 rich_ledger)) 5 = 10000000"
  "usdc_balance (usdc (constructor 1 rich_ledger)) 1 = 200000000"
  "usdc_balance (usdc (constructor 1 rich_ledger)) 99 = 100000000"
  "usdc_allowance (usdc (constructor 1 rich_ledger)) 5 99 = 1000000000"
  "usdc_allowance (usdc (constructor 1 rich_ledger)) 1 99 = 1000000000"
  "contract_address example_env = 99"
  by (simp_all add: constructor_fields rich_ledger_def example_env_def)

text \<open>Account 5 is refused; the owner 1 deposits 5 USDC.\<close>

theorem addUSDC_owner_gated_witness:
  "(5::address) \<noteq> owner (constructor 1 rich_ledger) \<and>
   addUSDC example_env (constructor 1 rich_ledger) 5 5000000 = Inl Unauthorized \<and>
   (1::address) = owner (constructor 1 rich_ledger) \<and>
   (\<exists>s'. addUSDC example_env (constructor 1 rich_ledger) 1 5000000 = Inr s' \<and>
         usdc_balance (usdc s') 99 = 105000000 \<and> usdc_balance (usdc s') 1 = 195000000)"
  using addUSDC_owner_gated [of 5 "constructor 1 rich_ledger" example_env 5000000]
    addUSDC_owner_gated [of 1 "constructor 1 rich_ledger" example_env 5000000]
  by (auto simp: example_facts)

text \<open>
  Claim C1 as stated fails: account 5 is not the owner, asks for a positive amount, has
  the balance and has given the allowance, and is rejected with \<open>Unauthorized\<close>.
\<close>

theorem addUSDC_anyone_counterexample:
  "(5::address) \<noteq> owner (constructor 1 rich_ledger) \<and>
   (0::u256) < 5000000 \<and>
   (5000000::u256) \<le> usdc_balance (usdc (constructor 1 rich_ledger)) 5 \<and>
   (5000000::u256) \<le> usdc_allowance (usdc (constructor 1 rich_ledger)) 5 (contract_address example_env) \<and>
   addUSDC example_env (constructor 1 rich_ledger) 5 5000000 = Inl Unauthorized"
  by (simp add: example_facts addUSDC_def)


subsection \<open>Buying tokens back\<close>

lemma payback_atomic:
  "(case payback e t c src j ta ua of
      Inl err \<Rightarrow> call e c (Payback src j ta ua) t = (t, Some err)
    | Inr t' \<Rightarrow>
        call e c (Payback src j ta ua) t = (t', None) \<and>
        ta \<le> balances t j src \<and>
        balances t' j src = balances t j src - ta \<and>
        ta \<le> currentSupply (tokenInfo t j) \<and>
        currentSupply (tokenInfo t' j) = currentSupply (tokenInfo t j) - ta \<and>
        usdc_transfer (usdc t) (contract_address e) src ua = Inr (True, usdc t'))"
proof (cases "payback e t c src j ta ua")
  case (Inl err)
  then show ?thesis by (simp add: call_def)
next
  case (Inr t')
  then have "ta \<le> balances t j src \<and>
        balances t' j src = balances t j src - ta \<and>
        ta \<le> currentSupply (tokenInfo t j) \<and>
        currentSupply (tokenInfo t' j) = currentSupply (tokenInfo t j) - ta \<and>
        usdc_transfer (usdc t) (contract_address e) src ua = Inr (True, usdc t')"
    by (auto simp: payback_def burn_base_eval checked_sub_def balanceOf_def Let_def
          set_supply_simps split: if_splits sum.splits)
  then show ?thesis using Inr by (simp add: call_def)
qed

lemma payback_scenario_run:
  assumes r: "reachable e s" and c: "caller = owner s" and act: "isActive (tokenInfo s 3)"
    and b: "balanceOf s holder 3 = 10"
    and t: "usdc_balance (usdc s) (contract_address e) = 100000000"
    and fits: "unat (usdc_balance (usdc s) holder) + 50000000 < 2 ^ 256"
  shows "\<exists>s1. payback e s caller holder 3 4 50000000 = Inr s1 \<and>
           balanceOf s1 holder 3 = 6 \<and>
           4 \<le> unat (currentSupply (tokenInfo s 3)) \<and>
           unat (currentSupply (tokenInfo s1 3)) = unat (currentSupply (tokenInfo s 3)) - 4 \<and>
           usdc_balance (usdc s1) (contract_address e) = 50000000 \<and>
           usdc_balance (usdc s1) holder = usdc_balance (usdc s) holder + 50000000 \<and>
           payback e s1 caller holder 3 4 60000000 = Inl InsufficientBalance \<and>
           call e caller (Payback holder 3 4 60000000) s1 = (s1, Some InsufficientBalance)"
proof -
  have inv: "ledger_inv e s 3"
    using r by (rule reachable_inv)
  have b': "balances s 3 holder = 10"
    using b by (simp add: balanceOf_def)
  have "unat (balances s 3 holder) \<le> held (balances s) 3"
    by (rule held_member)
  then have sup: "10 \<le> unat (currentSupply (tokenInfo s 3))"
    using inv b' by (simp add: ledger_inv_def total_held_def)
  then have sup4: "(4::u256) \<le> currentSupply (tokenInfo s 3)"
    by (simp add: word_le_nat_alt)
  have h0: "holder \<noteq> 0"
    using inv b' by (auto simp: ledger_inv_def)
  have hc: "contract_address e \<noteq> holder"
    using inv b' by (auto simp: ledger_inv_def)
  let ?l = "(usdc s)\<lparr>usdc_balance := (usdc_balance (usdc s))
            (contract_address e := usdc_balance (usdc s) (contract_address e) - 50000000,
             holder := usdc_balance (usdc s) holder + 50000000)\<rparr>"
  let ?s1 = "(set_supply s 3 (currentSupply (tokenInfo s 3) - 4))
               \<lparr>balances := (balances s)(3 := (balances s 3)(holder := balances s 3 holder - 4)),
                usdc := ?l\<rparr>"
  have mv: "usdc_move (usdc s) (contract_address e) holder 50000000 = Inr ?l"
    using h0 hc fits t by (intro usdc_move_ok) simp_all
  have p1: "payback e s caller holder 3 4 50000000 = Inr ?s1"
    using c act b' t sup4 h0 mv
    by (simp add: payback_def balanceOf_def checked_sub_def burn_base_eval usdc_transfer_def
          Let_def set_supply_simps)
  have f1: "balanceOf ?s1 holder 3 = 6"
    using b' by (simp add: balanceOf_def)
  have f2: "unat (currentSupply (tokenInfo ?s1 3)) = unat (currentSupply (tokenInfo s 3)) - 4"
    using sup4 by (simp add: set_supply_simps unat_sub_le)
  have f3: "usdc_balance (usdc ?s1) (contract_address e) = 50000000"
    using hc t by simp
  have f4: "usdc_balance (usdc ?s1) holder = usdc_balance (usdc s) holder + 50000000"
    by simp
  have p2: "payback e ?s1 caller holder 3 4 60000000 = Inl InsufficientBalance"
    using c act b' hc t
    by (simp add: payback_def balanceOf_def set_supply_simps)
  have p3: "call e caller (Payback holder 3 4 60000000) ?s1 = (?s1, Some InsufficientBalance)"
    using p2 by (simp add: call_def)
  from sup have sup': "4 \<le> unat (currentSupply (tokenInfo s 3))" by simp
  show ?thesis
    using p1 f1 f2 f3 f4 p2 p3 sup' by blast
qed


text \<open>
  Claim C6. In a reachable state in which the treasury holds 100 USDC and a holder owns
  10 units of the active token 3, the owner's call \<^verbatim>\<open>payback(holder, 3, 4, 50_000000)\<close>
  succeeds: the holder is left with 6 units, the current supply of token 3 is 4 less,
  and the treasury holds 50_000000. (The holder's stable-coin balance is assumed not to
  overflow, as the total supply of the stable coin guarantees.) The same call with
  60_000000 then fails with \<open>InsufficientBalance\<close> and leaves the state after the first
  call as it is. And for every call of \<^verbatim>\<open>payback\<close>, in any state: either it fails and
  nothing changes, or the tokens are burnt and the stable-coin transfer has been made.
\<close>

theorem payback_buyback:
  "(reachable e s \<and> caller = owner s \<and> isActive (tokenInfo s 3) \<and>
    balanceOf s holder 3 = 10 \<and>
    usdc_balance (usdc s) (contract_address e) = 100000000 \<and>
    unat (usdc_balance (usdc s) holder) + 50000000 < 2 ^ 256
    \<longrightarrow> (\<exists>s1. payback e s caller holder 3 4 50000000 = Inr s1 \<and>
           balanceOf s1 holder 3 = 6 \<and>
           4 \<le> unat (currentSupply (tokenInfo s 3)) \<and>
           unat (currentSupply (tokenInfo s1 3)) = unat (currentSupply (tokenInfo s 3)) - 4 \<and>
           usdc_balance (usdc s1) (contract_address e) = 50000000 \<and>
           usdc_balance (usdc s1) holder = usdc_balance (usdc s) holder + 50000000 \<and>
           payback e s1 caller holder 3 4 60000000 = Inl InsufficientBalance \<and>
           call e caller (Payback holder 3 4 60000000) s1 = (s1, Some InsufficientBalance)))
   \<and> (case payback e t c src j ta ua of
        Inl err \<Rightarrow> call e c (Payback src j ta ua) t = (t, Some err)
      | Inr t' \<Rightarrow>
          call e c (Payback src j ta ua) t = (t', None) \<and>
          ta \<le> balances t j src \<and>
          balances t' j src = balances t j src - ta \<and>
          ta \<le> currentSupply (tokenInfo t j) \<and>
          currentSupply (tokenInfo t' j) = currentSupply (tokenInfo t j) - ta \<and>
          usdc_transfer (usdc t) (contract_address e) src ua = Inr (True, usdc t'))"
proof (intro conjI impI)
  assume h: "reachable e s \<and> caller = owner s \<and> isActive (tokenInfo s 3) \<and>
    balanceOf s holder 3 = 10 \<and>
    usdc_balance (usdc s) (contract_address e) = 100000000 \<and>
    unat (usdc_balance (usdc s) holder) + 50000000 < 2 ^ 256"
  then have "reachable e s" "caller = owner s" "isActive (tokenInfo s 3)"
    "balanceOf s holder 3 = 10" "usdc_balance (usdc s) (contract_address e) = 100000000"
    "unat (usdc_balance (usdc s) holder) + 50000000 < 2 ^ 256"
    by blast+
  then show "\<exists>s1. payback e s caller holder 3 4 50000000 = Inr s1 \<and>
           balanceOf s1 holder 3 = 6 \<and>
           4 \<le> unat (currentSupply (tokenInfo s 3)) \<and>
           unat (currentSupply (tokenInfo s1 3)) = unat (currentSupply (tokenInfo s 3)) - 4 \<and>
           usdc_balance (usdc s1) (contract_address e) = 50000000 \<and>
           usdc_balance (usdc s1) holder = usdc_balance (usdc s) holder + 50000000 \<and>
           payback e s1 caller holder 3 4 60000000 = Inl InsufficientBalance \<and>
           call e caller (Payback holder 3 4 60000000) s1 = (s1, Some InsufficientBalance)"
    by (rule payback_scenario_run)
next
  show "case payback e t c src j ta ua of
        Inl err \<Rightarrow> call e c (Payback src j ta ua) t = (t, Some err)
      | Inr t' \<Rightarrow>
          call e c (Payback src j ta ua) t = (t', None) \<and>
          ta \<le> balances t j src \<and>
          balances t' j src = balances t j src - ta \<and>
          ta \<le> currentSupply (tokenInfo t j) \<and>
          currentSupply (tokenInfo t' j) = currentSupply (tokenInfo t j) - ta \<and>
          usdc_transfer (usdc t) (contract_address e) src ua = Inr (True, usdc t')"
    by (rule payback_atomic)
qed

text \<open>The scenario on the example state, with the contract at address 99 and holder 5.\<close>

theorem payback_buyback_witness:
  "reachable example_env (minted_state rich_ledger) \<and>
   (1::address) = owner (minted_state rich_ledger) \<and>
   isActive (tokenInfo (minted_state rich_ledger) 3) \<and>
   balanceOf (minted_state rich_ledger) 5 3 = 10 \<and>
   usdc_balance (usdc (minted_state rich_ledger)) (contract_address example_env) = 100000000 \<and>
   (\<exists>s1. payback example_env (minted_state rich_ledger) 1 5 3 4 50000000 = Inr s1 \<and>
         balanceOf s1 5 3 = 6 \<and>
         unat (currentSupply (tokenInfo s1 3)) = 6 \<and>
         usdc_balance (usdc s1) (contract_address example_env) = 50000000 \<and>
         usdc_balance (usdc s1) 5 = 60000000 \<and>
         payback example_env s1 1 5 3 4 60000000 = Inl InsufficientBalance)"
proof -
  have hyp: "reachable example_env (minted_state rich_ledger) \<and>
    (1::address) = owner (minted_state rich_ledger) \<and>
    isActive (tokenInfo (minted_state rich_ledger) 3) \<and>
    balanceOf (minted_state rich_ledger) 5 3 = 10 \<and>
    usdc_balance (usdc (minted_state rich_ledger)) (contract_address example_env) = 100000000 \<and>
    unat (usdc_balance (usdc (minted_state rich_ledger)) 5) + 50000000 < 2 ^ 256"
    using minted_reachable [of rich_ledger]
    by (simp add: minted_fields balanceOf_def rich_ledger_def example_env_def)
  have vals: "usdc_balance (usdc (minted_state rich_ledger)) 5 = 10000000"
    "unat (currentSupply (tokenInfo (minted_state rich_ledger) 3)) = 10"
    by (simp_all add: minted_fields rich_ledger_def)
  from payback_buyback [of example_env "minted_state rich_ledger" 1 5] hyp
  obtain s1 where "payback example_env (minted_state rich_ledger) 1 5 3 4 50000000 = Inr s1"
    "balanceOf s1 5 3 = 6"
    "unat (currentSupply (tokenInfo s1 3)) = unat (currentSupply (tokenInfo (minted_state rich_ledger) 3)) - 4"
    "usdc_balance (usdc s1) (contract_address example_env) = 50000000"
    "usdc_balance (usdc s1) 5 = usdc_balance (usdc (minted_state rich_ledger)) 5 + 50000000"
    "payback example_env s1 1 5 3 4 60000000 = Inl InsufficientBalance"
    by blast
  then show ?thesis
    using hyp vals by auto
qed

subsection \<open>Batch minting\<close>








section \<open>Properties of the event scanner\<close>

subsection \<open>The output is sorted, and the sort is stable\<close>

lemma provider_fields:
  "getBlockNumber (limited_provider tip blocks) = Some tip"
  "queryFilter (limited_provider tip blocks) kind a b =
     (if 20 < b + 1 - a then Inl RangeTooLarge
      else Inr (if kind = TransferSingle
                then map event_at (filter (\<lambda>x. a \<le> x \<and> x \<le> b) blocks) else []))"
  "getBlock (limited_provider tip blocks) ev = Some (1000 + 2 * log_blockNumber ev, log_blockNumber ev)"
  by (simp_all add: limited_provider_def)

subsection \<open>A scan whose first chunk is rejected\<close>

text \<open>
  The remote source has its tip at block 200, holds a single event, in block 200, and
  rejects queries over more than 20 blocks. The scan starts at block 1 with chunk size
  100. The first chunk (1, 100) is rejected; the retry with chunk size 10 has no end
  block and runs to the tip; the loop then goes on at block 200.
\<close>

lemma scan_200:
  "getAllEventsInChunks 2 (Some (limited_provider 200 [200])) (Some 1) 100 =
     Some (Inr ([event_at 200, event_at 200],
                [(1, 100), (1, 10), (11, 20), (21, 30), (31, 40), (41, 50), (51, 60), (61, 70),
                 (71, 80), (81, 90), (91, 100), (101, 110), (111, 120), (121, 130), (131, 140),
                 (141, 150), (151, 160), (161, 170), (171, 180), (181, 190), (191, 200),
                 (200, 200)]))"
  by (simp add: numeral_2_eq_2 chunk_loop.simps query_chunk_def provider_fields Let_def)

lemma timestamp_convert: "timestamp (convert_event (ev, ts, bn)) = ts"
  by (simp add: convert_event_def split: log_args.splits)

lemma scan_output_sorted:
  assumes "getTokenEvents fuel (Some p) fromBlock = Some (Inr d)"
  shows "\<exists>allEvents asked xs.
           getAllEventsInChunks fuel (Some p) fromBlock 100 = Some (Inr (allEvents, asked)) \<and>
           with_blocks p allEvents = Some xs \<and>
           sorted (map timestamp (events d)) \<and>
           (\<forall>t. filter (\<lambda>ev. timestamp ev = t) (events d) =
                map convert_event (filter (\<lambda>x. fst (snd x) = t) xs))"
proof -
  from assms obtain allEvents asked xs where
        scan: "getAllEventsInChunks fuel (Some p) fromBlock 100 = Some (Inr (allEvents, asked))"
    and blocks: "with_blocks p allEvents = Some xs"
    and d: "events d = map convert_event (sort_key (\<lambda>x. fst (snd x)) xs)"
    by (auto simp: getTokenEvents_def Let_def split: option.splits sum.splits)
  have ts: "map timestamp (map convert_event ys) = map (\<lambda>x. fst (snd x)) ys" for ys
    by (induction ys) (auto simp: timestamp_convert)
  have srt: "sorted (map timestamp (events d))"
    by (simp add: d ts del: map_map)
  have "filter (\<lambda>ev. timestamp ev = t) (map convert_event ys) =
        map convert_event (filter (\<lambda>x. fst (snd x) = t) ys)" for t ys
    by (induction ys) (auto simp: timestamp_convert)
  then have "filter (\<lambda>ev. timestamp ev = t) (events d) =
        map convert_event (filter (\<lambda>x. fst (snd x) = t) xs)" for t
    by (simp add: d sort_key_stable)
  with scan blocks srt show ?thesis by blast
qed

subsection \<open>More fuel does not change a result\<close>

lemma chunk_loop_stop:
  assumes "\<not> startBlock \<le> currentBlock \<or>
           int startBlock > min (int startBlock + int chunkSize - 1) (int currentBlock)"
  shows "chunk_loop retry p currentBlock chunkSize startBlock (allEvents, asked) =
         Some (Inr (allEvents, asked))"
  using assms by (subst chunk_loop.simps) (auto simp: Let_def)

lemma chunk_loop_step:
  assumes "startBlock \<le> currentBlock"
    and "endBlock = min (int startBlock + int chunkSize - 1) (int currentBlock)"
    and "\<not> int startBlock > endBlock"
  shows "chunk_loop retry p currentBlock chunkSize startBlock (allEvents, asked) =
     (case query_chunk p startBlock (nat endBlock) of
        Inr found \<Rightarrow>
          chunk_loop retry p currentBlock chunkSize (startBlock + chunkSize)
            (allEvents @ found, asked @ [(startBlock, nat endBlock)])
      | Inl RangeTooLarge \<Rightarrow>
          (case retry startBlock (max 10 (chunkSize div 10)) of
             None \<Rightarrow> None
           | Some (Inl nestedError) \<Rightarrow>
               chunk_loop retry p currentBlock chunkSize (startBlock + chunkSize)
                 (allEvents, asked @ [(startBlock, nat endBlock)])
           | Some (Inr (smallerEvents, smallerAsked)) \<Rightarrow>
               chunk_loop retry p currentBlock chunkSize (nat endBlock + chunkSize)
                 (allEvents @ smallerEvents,
                  asked @ [(startBlock, nat endBlock)] @ smallerAsked))
      | Inl OtherError \<Rightarrow>
          chunk_loop retry p currentBlock chunkSize (startBlock + chunkSize)
            (allEvents, asked @ [(startBlock, nat endBlock)]))"
proof -
  have 1: "(startBlock \<le> currentBlock) = True"
    using assms(1) by simp
  have 2: "(int startBlock > min (int startBlock + int chunkSize - 1) (int currentBlock)) = False"
    using assms(2,3) by simp
  show ?thesis
    unfolding assms(2) by (subst chunk_loop.simps) (simp only: Let_def 1 2 if_True if_False)
qed

lemma chunk_loop_mono:
  "(\<And>b c r. retry b c = Some r \<Longrightarrow> retry' b c = Some r) \<Longrightarrow>
   chunk_loop retry p tip cs start acc = Some r \<Longrightarrow>
   chunk_loop retry' p tip cs start acc = Some r"
proof (induction retry p tip cs start acc arbitrary: r rule: chunk_loop.induct)
  case (1 retry p currentBlock chunkSize startBlock allEvents asked)
  note mono = "1.prems"(1) and run = "1.prems"(2)
  define endBlock where "endBlock = min (int startBlock + int chunkSize - 1) (int currentBlock)"
  show ?case
  proof (cases "startBlock \<le> currentBlock \<and> \<not> int startBlock > endBlock")
    case False
    then have stop: "\<not> startBlock \<le> currentBlock \<or>
        int startBlock > min (int startBlock + int chunkSize - 1) (int currentBlock)"
      by (auto simp: endBlock_def)
    show ?thesis
      using run by (simp only: chunk_loop_stop [OF stop])
  next
    case True
    then have inside: "startBlock \<le> currentBlock" and go: "\<not> int startBlock > endBlock"
      by simp_all
    note step = chunk_loop_step [OF inside endBlock_def go]
    show ?thesis
    proof (cases "query_chunk p startBlock (nat endBlock)")
      case (Inr found)
      have "chunk_loop retry p currentBlock chunkSize (startBlock + chunkSize)
              (allEvents @ found, asked @ [(startBlock, nat endBlock)]) = Some r"
        using run by (simp add: step Inr)
      then have "chunk_loop retry' p currentBlock chunkSize (startBlock + chunkSize)
              (allEvents @ found, asked @ [(startBlock, nat endBlock)]) = Some r"
        using mono by (intro "1.IH"(4) [OF inside endBlock_def go Inr]) auto
      then show ?thesis
        by (simp add: step Inr)
    next
      case (Inl err)
      show ?thesis
      proof (cases err)
        case OtherError
        have "chunk_loop retry p currentBlock chunkSize (startBlock + chunkSize)
                (allEvents, asked @ [(startBlock, nat endBlock)]) = Some r"
          using run by (simp add: step Inl OtherError)
        then have "chunk_loop retry' p currentBlock chunkSize (startBlock + chunkSize)
                (allEvents, asked @ [(startBlock, nat endBlock)]) = Some r"
          using mono by (intro "1.IH"(3) [OF inside endBlock_def go Inl OtherError]) auto
        then show ?thesis
          by (simp add: step Inl OtherError)
      next
        case RangeTooLarge
        define smaller where "smaller = max 10 (chunkSize div 10)"
        show ?thesis
        proof (cases "retry startBlock smaller")
          case None
          then show ?thesis
            using run by (simp add: step Inl RangeTooLarge smaller_def)
        next
          case (Some res)
          then have res': "retry' startBlock smaller = Some res"
            by (rule mono)
          show ?thesis
          proof (cases res)
            case nested: (Inl nestedError)
            have "chunk_loop retry p currentBlock chunkSize (startBlock + chunkSize)
                    (allEvents, asked @ [(startBlock, nat endBlock)]) = Some r"
              using run Some nested
              by (simp add: step Inl RangeTooLarge smaller_def [symmetric])
            then have "chunk_loop retry' p currentBlock chunkSize (startBlock + chunkSize)
                    (allEvents, asked @ [(startBlock, nat endBlock)]) = Some r"
              using mono by (intro "1.IH"(1) [OF inside endBlock_def go Inl RangeTooLarge smaller_def
                    Some nested]) auto
            then show ?thesis
              using res' nested by (simp add: step Inl RangeTooLarge smaller_def [symmetric])
          next
            case ok: (Inr pair)
            obtain smallerEvents smallerAsked where pair: "pair = (smallerEvents, smallerAsked)"
              by (cases pair)
            have "chunk_loop retry p currentBlock chunkSize (nat endBlock + chunkSize)
                    (allEvents @ smallerEvents,
                     asked @ [(startBlock, nat endBlock)] @ smallerAsked) = Some r"
              using run Some ok pair
              by (simp add: step Inl RangeTooLarge smaller_def [symmetric])
            then have "chunk_loop retry' p currentBlock chunkSize (nat endBlock + chunkSize)
                    (allEvents @ smallerEvents,
                     asked @ [(startBlock, nat endBlock)] @ smallerAsked) = Some r"
              using mono by (intro "1.IH"(2) [OF inside endBlock_def go Inl RangeTooLarge smaller_def
                    Some ok pair [symmetric]]) auto
            then show ?thesis
              using res' ok pair by (simp add: step Inl RangeTooLarge smaller_def [symmetric])
          qed
        qed
      qed
    qed
  qed
qed

lemma more_fuel:
  "getAllEventsInChunks fuel po fromBlock chunkSize = Some r \<Longrightarrow>
   getAllEventsInChunks (Suc fuel) po fromBlock chunkSize = Some r"
proof (induction fuel arbitrary: fromBlock chunkSize r)
  case 0
  then show ?case by simp
next
  case (Suc fuel)
  show ?case
  proof (cases po)
    case None
    then show ?thesis using Suc.prems by simp
  next
    case (Some p)
    show ?thesis
    proof (cases "getBlockNumber p")
      case None
      then show ?thesis using Suc.prems Some by simp
    next
      case tip: (Some currentBlock)
      define startFrom where
        "startFrom = (case fromBlock of None \<Rightarrow> currentBlock - 100000
                      | Some b \<Rightarrow> if b = 0 then currentBlock - 100000 else b)"
      have unfold: "getAllEventsInChunks (Suc f) po fromBlock chunkSize =
          chunk_loop (\<lambda>b c. getAllEventsInChunks f po (Some b) c) p currentBlock chunkSize
            startFrom ([], [])" for f
        by (simp add: Some tip startFrom_def Let_def)
      have "chunk_loop (\<lambda>b c. getAllEventsInChunks fuel po (Some b) c) p currentBlock chunkSize
              startFrom ([], []) = Some r"
        using Suc.prems by (simp only: unfold)
      then have "chunk_loop (\<lambda>b c. getAllEventsInChunks (Suc fuel) po (Some b) c) p currentBlock
              chunkSize startFrom ([], []) = Some r"
        by (rule chunk_loop_mono [rotated]) (rule Suc.IH)
      then show ?thesis
        by (simp only: unfold)
    qed
  qed
qed

lemma enough_fuel:
  "getAllEventsInChunks fuel po fromBlock chunkSize = Some r \<Longrightarrow>
   getAllEventsInChunks (fuel + k) po fromBlock chunkSize = Some r"
proof (induction k)
  case 0
  then show ?case by simp
next
  case (Suc k)
  have "getAllEventsInChunks (Suc (fuel + k)) po fromBlock chunkSize = Some r"
    using Suc.IH [OF Suc.prems] by (rule more_fuel)
  then show ?case by (simp only: add_Suc_right)
qed


subsection \<open>A range of 100 blocks\<close>

text \<open>
  When the range is the 100 blocks 101 to 200 and the tip is block 200, the scan with
  chunk size 100 returns with any fuel from 2 on: the chunk (101, 200) is rejected, the
  retry asks for ten chunks of 10 blocks, and every event of the range is returned as
  often as the source holds it.
\<close>

lemma count_list_filter: "count_list (filter P xs) b = (if P b then count_list xs b else 0)"
  by (induction xs) auto

lemma blocks_of_events: "map log_blockNumber (map event_at xs) = xs"
  by (induction xs) (simp_all add: event_at_def)

lemma scan_100_blocks:
  "\<exists>found. getAllEventsInChunks (2 + k) (Some (limited_provider 200 blocks)) (Some 101) 100 =
      Some (Inr (found,
                 [(101, 200), (101, 110), (111, 120), (121, 130), (131, 140), (141, 150),
                  (151, 160), (161, 170), (171, 180), (181, 190), (191, 200)])) \<and>
    (\<forall>b. count_list (map log_blockNumber found) b =
           (if 101 \<le> b \<and> b \<le> 200 then count_list blocks b else 0))"
proof -
  let ?chunk = "\<lambda>lo hi. map event_at (filter (\<lambda>x. lo \<le> x \<and> x \<le> hi) blocks)"
  let ?found = "?chunk 101 110 @ ?chunk 111 120 @ ?chunk 121 130 @ ?chunk 131 140 @
                ?chunk 141 150 @ ?chunk 151 160 @ ?chunk 161 170 @ ?chunk 171 180 @
                ?chunk 181 190 @ ?chunk 191 200"
  have "getAllEventsInChunks 2 (Some (limited_provider 200 blocks)) (Some 101) 100 =
      Some (Inr (?found,
                 [(101, 200), (101, 110), (111, 120), (121, 130), (131, 140), (141, 150),
                  (151, 160), (161, 170), (171, 180), (181, 190), (191, 200)]))"
    by (simp add: numeral_2_eq_2 chunk_loop.simps query_chunk_def provider_fields Let_def)
  then have run: "getAllEventsInChunks (2 + k) (Some (limited_provider 200 blocks)) (Some 101) 100 =
      Some (Inr (?found,
                 [(101, 200), (101, 110), (111, 120), (121, 130), (131, 140), (141, 150),
                  (151, 160), (161, 170), (171, 180), (181, 190), (191, 200)]))"
    by (rule enough_fuel)
  have cnt: "count_list (map log_blockNumber ?found) b =
           (if 101 \<le> b \<and> b \<le> 200 then count_list blocks b else 0)" for b
    by (simp add: blocks_of_events count_list_filter del: map_map)
  show ?thesis
    using run cnt by blast
qed


subsection \<open>The claims about the scanner\<close>

lemma scan_200_fuel:
  "getAllEventsInChunks (2 + k) (Some (limited_provider 200 [200])) (Some 1) 100 =
     Some (Inr ([event_at 200, event_at 200],
                [(1, 100), (1, 10), (11, 20), (21, 30), (31, 40), (41, 50), (51, 60), (61, 70),
                 (71, 80), (81, 90), (91, 100), (101, 110), (111, 120), (121, 130), (131, 140),
                 (141, 150), (151, 160), (161, 170), (171, 180), (181, 190), (191, 200),
                 (200, 200)]))"
  using scan_200 by (rule enough_fuel)

text \<open>
  Claim C8, on the code. The source holds one event, in block 200, and answers the query
  (191, 200) with it. \<^verbatim>\<open>getTokenEvents\<close> from block 1 returns, for every fuel from 2
  on, two events, both of block 200: the event is retrieved by the retry of the rejected
  chunk, which ran to the tip, and again by the query (200, 200) of the loop that
  resumes there. The list is sorted by timestamp all the same.
\<close>

theorem scan_returns_event_twice:
  "queryFilter (limited_provider 200 [200]) TransferSingle 191 200 = Inr [event_at 200] \<and>
   map_option (map_sum id (\<lambda>d. (totalEvents d, map blockNumber (events d), map timestamp (events d))))
     (getTokenEvents (2 + k) (Some (limited_provider 200 [200])) (Some 1)) =
   Some (Inr (2, [200, 200], [1400, 1400]))"
  unfolding getTokenEvents_def scan_200_fuel
  by (simp add: provider_fields event_at_def convert_event_def)

text \<open>
  Claim C9, on the code. The block ranges the scanner asks the source for, in order: the
  rejected chunk (1, 100); then the retry with chunk size 10, which does not stop at
  block 100 but goes on to (191, 200); then the loop of the first call again, at
  (200, 200), a block the retry has covered already.
\<close>

theorem retry_scans_beyond_failed_range:
  "map_option (map_sum id snd)
     (getAllEventsInChunks (2 + k) (Some (limited_provider 200 [200])) (Some 1) 100) =
   Some (Inr [(1, 100), (1, 10), (11, 20), (21, 30), (31, 40), (41, 50), (51, 60), (61, 70),
              (71, 80), (81, 90), (91, 100), (101, 110), (111, 120), (121, 130), (131, 140),
              (141, 150), (151, 160), (161, 170), (171, 180), (181, 190), (191, 200),
              (200, 200)])"
  unfolding scan_200_fuel by simp

end
